theory Spec2Isabelle
  imports Main "HOL-Library.Word"
begin

unbundle bit_operations_syntax

section \<open>The platform under \<open>src/services/storage.ts\<close>\<close>

text \<open>
  \<open>storage.ts\<close> keeps the saved project ideas as one JSON text under one key of the
  browser's \<open>localStorage\<close>. Its four functions are built from \<open>localStorage.getItem\<close>,
  \<open>localStorage.setItem\<close>, \<open>JSON.parse\<close>, \<open>JSON.stringify\<close>, \<open>Array.prototype.some\<close>,
  \<open>Array.prototype.filter\<close> and the spread of an array. These belong to the JavaScript
  platform, not to the repository; this section models them after ECMA-262 and the Web
  Storage part of the HTML standard, so that the four functions can be written below the
  way the source writes them.
\<close>

subsection \<open>Strings and values\<close>

text \<open>A JavaScript string is a sequence of 16-bit code units.\<close>

type_synonym code_unit = "16 word"
type_synonym jsstring = "code_unit list"

definition ascii :: "string \<Rightarrow> jsstring" where
  "ascii cs = map (\<lambda>c. of_nat (of_char c)) cs"

text \<open>
  The values \<open>JSON.parse\<close> can return. An object is the list of its own properties in
  the order \<open>JSON.stringify\<close> visits them. A number is carried as the literal that denotes
  it: neither the rounding to a double nor the rewriting of the literal on output is
  modelled. \<open>ProjectIdea\<close> has no numeric field and the store never computes with a
  number.
\<close>

datatype jsval =
    Null
  | Bool bool
  | Num jsstring
  | Str jsstring
  | Arr "jsval list"
  | Obj "(jsstring \<times> jsval) list"

datatype exn = SyntaxError | TypeError | SecurityError | QuotaExceededError

subsection \<open>\<open>JSON.stringify\<close>\<close>

definition hexdigit :: "code_unit \<Rightarrow> code_unit" where
  "hexdigit d = (if d < 10 then 0x30 + d else 0x57 + d)"

definition UnicodeEscape :: "code_unit \<Rightarrow> jsstring" where
  "UnicodeEscape c =
     [0x5C, 0x75, hexdigit (drop_bit 12 c), hexdigit (take_bit 4 (drop_bit 8 c)),
      hexdigit (take_bit 4 (drop_bit 4 c)), hexdigit (take_bit 4 c)]"

definition is_lead :: "code_unit \<Rightarrow> bool" where
  "is_lead c \<longleftrightarrow> 0xD800 \<le> c \<and> c \<le> 0xDBFF"

definition is_trail :: "code_unit \<Rightarrow> bool" where
  "is_trail c \<longleftrightarrow> 0xDC00 \<le> c \<and> c \<le> 0xDFFF"

text \<open>
  The body of \<open>QuoteJSONString\<close>: the two-character escapes, \<open>\<bsol>uXXXX\<close> for the other
  control characters and for a surrogate that is not half of a pair, everything else as
  it is.
\<close>

fun quote_units :: "jsstring \<Rightarrow> jsstring" where
  "quote_units [] = []"
| "quote_units (c # cs) =
     (if c = 0x08 then 0x5C # 0x62 # quote_units cs
      else if c = 0x09 then 0x5C # 0x74 # quote_units cs
      else if c = 0x0A then 0x5C # 0x6E # quote_units cs
      else if c = 0x0C then 0x5C # 0x66 # quote_units cs
      else if c = 0x0D then 0x5C # 0x72 # quote_units cs
      else if c = 0x22 then 0x5C # 0x22 # quote_units cs
      else if c = 0x5C then 0x5C # 0x5C # quote_units cs
      else if c < 0x20 then UnicodeEscape c @ quote_units cs
      else if is_lead c then
        (case cs of
           [] \<Rightarrow> UnicodeEscape c
         | d # ds \<Rightarrow>
             if is_trail d then c # d # quote_units ds
             else UnicodeEscape c @ quote_units cs)
      else if is_trail c then UnicodeEscape c @ quote_units cs
      else c # quote_units cs)"

definition QuoteJSONString :: "jsstring \<Rightarrow> jsstring" where
  "QuoteJSONString s = 0x22 # quote_units s @ [0x22]"

fun join_comma :: "jsstring list \<Rightarrow> jsstring" where
  "join_comma [] = []"
| "join_comma [x] = x"
| "join_comma (x # y # ys) = x @ 0x2C # join_comma (y # ys)"

fun JSON_stringify :: "jsval \<Rightarrow> jsstring" where
  "JSON_stringify Null = ascii ''null''"
| "JSON_stringify (Bool b) = (if b then ascii ''true'' else ascii ''false'')"
| "JSON_stringify (Num l) = l"
| "JSON_stringify (Str s) = QuoteJSONString s"
| "JSON_stringify (Arr vs) = 0x5B # join_comma (map JSON_stringify vs) @ [0x5D]"
| "JSON_stringify (Obj ps) =
     0x7B # join_comma (map (\<lambda>(k, v). QuoteJSONString k @ 0x3A # JSON_stringify v) ps) @ [0x7D]"

subsection \<open>\<open>JSON.parse\<close>\<close>

definition is_ws :: "code_unit \<Rightarrow> bool" where
  "is_ws c \<longleftrightarrow> c = 0x20 \<or> c = 0x09 \<or> c = 0x0A \<or> c = 0x0D"

definition skip_ws :: "jsstring \<Rightarrow> jsstring" where
  "skip_ws s = dropWhile is_ws s"

definition is_digit :: "code_unit \<Rightarrow> bool" where
  "is_digit c \<longleftrightarrow> 0x30 \<le> c \<and> c \<le> 0x39"

definition hexval :: "code_unit \<Rightarrow> code_unit option" where
  "hexval c =
     (if 0x30 \<le> c \<and> c \<le> 0x39 then Some (c - 0x30)
      else if 0x41 \<le> c \<and> c \<le> 0x46 then Some (c - 0x37)
      else if 0x61 \<le> c \<and> c \<le> 0x66 then Some (c - 0x57)
      else None)"

definition hex4 :: "jsstring \<Rightarrow> code_unit option" where
  "hex4 hs =
     (case map hexval hs of
        [Some a, Some b, Some c, Some d] \<Rightarrow>
          Some (push_bit 12 a OR push_bit 8 b OR push_bit 4 c OR d)
      | _ \<Rightarrow> None)"

definition unescape :: "code_unit \<Rightarrow> code_unit option" where
  "unescape e =
     (if e = 0x22 then Some 0x22
      else if e = 0x5C then Some 0x5C
      else if e = 0x2F then Some 0x2F
      else if e = 0x62 then Some 0x08
      else if e = 0x66 then Some 0x0C
      else if e = 0x6E then Some 0x0A
      else if e = 0x72 then Some 0x0D
      else if e = 0x74 then Some 0x09
      else None)"

definition cons_unit :: "code_unit \<Rightarrow> (jsstring \<times> jsstring) option \<Rightarrow> (jsstring \<times> jsstring) option" where
  "cons_unit c r = (case r of None \<Rightarrow> None | Some (s, rest) \<Rightarrow> Some (c # s, rest))"

text \<open>
  A JSON string, read after its opening quote: the decoded string and the input after
  the closing quote.
\<close>

fun parse_units :: "jsstring \<Rightarrow> (jsstring \<times> jsstring) option" where
  "parse_units [] = None"
| "parse_units (c # cs) =
     (if c = 0x22 then Some ([], cs)
      else if c = 0x5C then
        (case cs of
           [] \<Rightarrow> None
         | e # es \<Rightarrow>
             if e = 0x75 then
               (case es of
                  h1 # h2 # h3 # h4 # r \<Rightarrow>
                    (case hex4 [h1, h2, h3, h4] of
                       None \<Rightarrow> None
                     | Some u \<Rightarrow> cons_unit u (parse_units r))
                | _ \<Rightarrow> None)
             else
               (case unescape e of
                  None \<Rightarrow> None
                | Some u \<Rightarrow> cons_unit u (parse_units es)))
      else if c < 0x20 then None
      else cons_unit c (parse_units cs))"

text \<open>
  A JSON number: \<open>-? (0 | [1-9][0-9]*) (. [0-9]+)? ([eE] [+-]? [0-9]+)?\<close>. Each part
  returns the units it read and the rest.
\<close>

definition scan_int :: "jsstring \<Rightarrow> (jsstring \<times> jsstring) option" where
  "scan_int s =
     (case s of
        [] \<Rightarrow> None
      | c # cs \<Rightarrow>
          if c = 0x30 then Some ([c], cs)
          else if is_digit c then Some (c # takeWhile is_digit cs, dropWhile is_digit cs)
          else None)"

definition scan_frac :: "jsstring \<Rightarrow> (jsstring \<times> jsstring) option" where
  "scan_frac s =
     (case s of
        [] \<Rightarrow> Some ([], s)
      | c # cs \<Rightarrow>
          if c = 0x2E then
            (if takeWhile is_digit cs = [] then None
             else Some (c # takeWhile is_digit cs, dropWhile is_digit cs))
          else Some ([], s))"

definition scan_digits1 :: "jsstring \<Rightarrow> (jsstring \<times> jsstring) option" where
  "scan_digits1 s =
     (if takeWhile is_digit s = [] then None
      else Some (takeWhile is_digit s, dropWhile is_digit s))"

definition scan_exp :: "jsstring \<Rightarrow> (jsstring \<times> jsstring) option" where
  "scan_exp s =
     (case s of
        [] \<Rightarrow> Some ([], s)
      | c # cs \<Rightarrow>
          if c = 0x65 \<or> c = 0x45 then
            (case cs of
               [] \<Rightarrow> None
             | d # ds \<Rightarrow>
                 if d = 0x2B \<or> d = 0x2D then
                   (case scan_digits1 ds of
                      None \<Rightarrow> None
                    | Some (l, rest) \<Rightarrow> Some (c # d # l, rest))
                 else
                   (case scan_digits1 cs of
                      None \<Rightarrow> None
                    | Some (l, rest) \<Rightarrow> Some (c # l, rest)))
          else Some ([], s))"

definition scan_unsigned :: "jsstring \<Rightarrow> (jsstring \<times> jsstring) option" where
  "scan_unsigned s =
     (case scan_int s of
        None \<Rightarrow> None
      | Some (i, s1) \<Rightarrow>
          (case scan_frac s1 of
             None \<Rightarrow> None
           | Some (f, s2) \<Rightarrow>
               (case scan_exp s2 of
                  None \<Rightarrow> None
                | Some (e, s3) \<Rightarrow> Some (i @ f @ e, s3))))"

definition scan_number :: "jsstring \<Rightarrow> (jsstring \<times> jsstring) option" where
  "scan_number s =
     (case s of
        [] \<Rightarrow> None
      | c # cs \<Rightarrow>
          if c = 0x2D then
            (case scan_unsigned cs of
               None \<Rightarrow> None
             | Some (l, rest) \<Rightarrow> Some (c # l, rest))
          else scan_unsigned s)"

text \<open>
  The own property keys of an ordinary object are kept with the array indices first, in
  ascending order, and the other keys after them in the order of their creation.
  \<open>array_index\<close> recognises a canonical numeric string below \<open>2^32 - 1\<close>.
\<close>

definition digits_value :: "jsstring \<Rightarrow> int" where
  "digits_value ds = foldl (\<lambda>n d. 10 * n + uint (d - 0x30)) 0 ds"

definition array_index :: "jsstring \<Rightarrow> int option" where
  "array_index k =
     (case k of
        [] \<Rightarrow> None
      | c # cs \<Rightarrow>
          if \<not> list_all is_digit k then None
          else if c = 0x30 \<and> cs \<noteq> [] then None
          else if length k \<le> 10 \<and> digits_value k < 4294967295 then Some (digits_value k)
          else None)"

definition key_before :: "jsstring \<Rightarrow> jsstring \<Rightarrow> bool" where
  "key_before k k' =
     (case array_index k of
        None \<Rightarrow> False
      | Some i \<Rightarrow> (case array_index k' of None \<Rightarrow> True | Some j \<Rightarrow> i < j))"

text \<open>
  \<open>CreateDataProperty\<close> on the property list: an existing key keeps its place and takes
  the new value, a new key goes to its place in the order.
\<close>

fun CreateDataProperty :: "jsstring \<Rightarrow> jsval \<Rightarrow> (jsstring \<times> jsval) list \<Rightarrow> (jsstring \<times> jsval) list" where
  "CreateDataProperty k v [] = [(k, v)]"
| "CreateDataProperty k v ((k', v') # ps) =
     (if k = k' then (k, v) # ps
      else if key_before k k' then (k, v) # (k', v') # ps
      else (k', v') # CreateDataProperty k v ps)"

definition make_object :: "(jsstring \<times> jsval) list \<Rightarrow> jsval" where
  "make_object ms = Obj (foldl (\<lambda>ps (k, v). CreateDataProperty k v ps) [] ms)"

datatype 'a parsed = OutOfFuel | Reject | Ok 'a

text \<open>
  The values that do not nest: a string, one of the three literals, a number.
\<close>

definition parse_scalar :: "jsstring \<Rightarrow> (jsval \<times> jsstring) parsed" where
  "parse_scalar s =
     (case s of
        [] \<Rightarrow> Reject
      | c # cs \<Rightarrow>
          if c = 0x22 then
            (case parse_units cs of
               None \<Rightarrow> Reject
             | Some (str, rest) \<Rightarrow> Ok (Str str, rest))
          else if take 4 s = ascii ''null'' then Ok (Null, drop 4 s)
          else if take 4 s = ascii ''true'' then Ok (Bool True, drop 4 s)
          else if take 5 s = ascii ''false'' then Ok (Bool False, drop 5 s)
          else
            (case scan_number s of
               None \<Rightarrow> Reject
             | Some (l, rest) \<Rightarrow> Ok (Num l, rest)))"

text \<open>The key of a member and its colon: the key and the input after the colon.\<close>

definition parse_key :: "jsstring \<Rightarrow> (jsstring \<times> jsstring) option" where
  "parse_key s =
     (case skip_ws s of
        [] \<Rightarrow> None
      | q # qs \<Rightarrow>
          if q \<noteq> 0x22 then None
          else
            (case parse_units qs of
               None \<Rightarrow> None
             | Some (k, s1) \<Rightarrow>
                 (case skip_ws s1 of
                    [] \<Rightarrow> None
                  | c # cs \<Rightarrow> if c = 0x3A then Some (k, cs) else None)))"

text \<open>
  The recursive descent. The grammar nests, so the three functions recurse on a fuel
  that every call spends; \<open>JSON_parse\<close> gives them more than any text can use
  (\<open>parse_value_enough_fuel\<close> below).
\<close>

fun parse_value :: "nat \<Rightarrow> jsstring \<Rightarrow> (jsval \<times> jsstring) parsed"
and parse_elements :: "nat \<Rightarrow> jsstring \<Rightarrow> (jsval list \<times> jsstring) parsed"
and parse_members :: "nat \<Rightarrow> jsstring \<Rightarrow> ((jsstring \<times> jsval) list \<times> jsstring) parsed"
where
  "parse_value 0 s = OutOfFuel"
| "parse_value (Suc n) s =
     (case skip_ws s of
        [] \<Rightarrow> Reject
      | c # cs \<Rightarrow>
          if c = 0x5B then
            (case skip_ws cs of
               [] \<Rightarrow> Reject
             | d # ds \<Rightarrow>
                 if d = 0x5D then Ok (Arr [], ds)
                 else
                   (case parse_elements n cs of
                      OutOfFuel \<Rightarrow> OutOfFuel
                    | Reject \<Rightarrow> Reject
                    | Ok (vs, rest) \<Rightarrow> Ok (Arr vs, rest)))
          else if c = 0x7B then
            (case skip_ws cs of
               [] \<Rightarrow> Reject
             | d # ds \<Rightarrow>
                 if d = 0x7D then Ok (Obj [], ds)
                 else
                   (case parse_members n cs of
                      OutOfFuel \<Rightarrow> OutOfFuel
                    | Reject \<Rightarrow> Reject
                    | Ok (ms, rest) \<Rightarrow> Ok (make_object ms, rest)))
          else parse_scalar (c # cs))"
| "parse_elements 0 s = OutOfFuel"
| "parse_elements (Suc n) s =
     (case parse_value n s of
        OutOfFuel \<Rightarrow> OutOfFuel
      | Reject \<Rightarrow> Reject
      | Ok (v, rest) \<Rightarrow>
          (case skip_ws rest of
             [] \<Rightarrow> Reject
           | c # cs \<Rightarrow>
               if c = 0x5D then Ok ([v], cs)
               else if c = 0x2C then
                 (case parse_elements n cs of
                    OutOfFuel \<Rightarrow> OutOfFuel
                  | Reject \<Rightarrow> Reject
                  | Ok (vs, rest') \<Rightarrow> Ok (v # vs, rest'))
               else Reject))"
| "parse_members 0 s = OutOfFuel"
| "parse_members (Suc n) s =
     (case parse_key s of
        None \<Rightarrow> Reject
      | Some (k, cs) \<Rightarrow>
          (case parse_value n cs of
             OutOfFuel \<Rightarrow> OutOfFuel
           | Reject \<Rightarrow> Reject
           | Ok (v, rest) \<Rightarrow>
               (case skip_ws rest of
                  [] \<Rightarrow> Reject
                | d # ds \<Rightarrow>
                    if d = 0x7D then Ok ([(k, v)], ds)
                    else if d = 0x2C then
                      (case parse_members n ds of
                         OutOfFuel \<Rightarrow> OutOfFuel
                       | Reject \<Rightarrow> Reject
                       | Ok (ms, rest') \<Rightarrow> Ok ((k, v) # ms, rest'))
                    else Reject)))"

definition JSON_parse :: "jsstring \<Rightarrow> exn + jsval" where
  "JSON_parse s =
     (case parse_value (Suc (length s + length s)) s of
        Ok (v, rest) \<Rightarrow> if skip_ws rest = [] then Inr v else Inl SyntaxError
      | _ \<Rightarrow> Inl SyntaxError)"

text \<open>
  The values in the form \<open>JSON.parse\<close> builds them, numbers apart: the keys of every
  object are distinct and in the order of \<open>CreateDataProperty\<close>. For these values
  \<open>JSON.parse\<close> is shown below to read back what \<open>JSON.stringify\<close> writes.
\<close>

definition keys_in_order :: "jsstring list \<Rightarrow> bool" where
  "keys_in_order ks \<longleftrightarrow> distinct ks \<and> sorted_wrt (\<lambda>k k'. \<not> key_before k' k) ks"

fun canonical :: "jsval \<Rightarrow> bool" where
  "canonical Null = True"
| "canonical (Bool b) = True"
| "canonical (Num l) = False"
| "canonical (Str s) = True"
| "canonical (Arr vs) = list_all canonical vs"
| "canonical (Obj ps) = (keys_in_order (map fst ps) \<and> list_all (\<lambda>p. canonical (snd p)) ps)"

subsection \<open>\<open>localStorage\<close>\<close>

text \<open>
  The storage area of the origin: its key/value pairs and the two ways an access fails.
  \<open>denied\<close>: the user agent refuses the page the storage area, and reading as well as
  writing throws a \<open>SecurityError\<close>. \<open>refuses_writes\<close>: \<open>setItem\<close> cannot set the new value
  (the user has disabled storage for the site, or the quota is used up); it throws a
  \<open>QuotaExceededError\<close> and stores nothing, while reading still works. \<open>setItem_calls\<close>
  counts the calls of \<open>setItem\<close>, so that a statement can say whether a function wrote.
\<close>

record Storage =
  entries :: "jsstring \<rightharpoonup> jsstring"
  denied :: bool
  refuses_writes :: bool
  setItem_calls :: nat

definition getItem :: "jsstring \<Rightarrow> Storage \<Rightarrow> (exn + jsstring option) \<times> Storage" where
  "getItem k st = (if denied st then (Inl SecurityError, st) else (Inr (entries st k), st))"

definition setItem :: "jsstring \<Rightarrow> jsstring \<Rightarrow> Storage \<Rightarrow> (exn + unit) \<times> Storage" where
  "setItem k v st =
     (let st' = st\<lparr>setItem_calls := Suc (setItem_calls st)\<rparr>
      in if denied st then (Inl SecurityError, st')
         else if refuses_writes st then (Inl QuotaExceededError, st')
         else (Inr (), st'\<lparr>entries := (entries st)(k \<mapsto> v)\<rparr>))"

subsection \<open>Property access and the array methods\<close>

text \<open>
  \<open>p.id\<close>: a \<open>TypeError\<close> on \<open>null\<close>, the own property of an object, and \<open>undefined\<close>
  (here \<open>None\<close>) on every other value, none of which has a property of that name.
\<close>

definition get_id :: "jsval \<Rightarrow> exn + jsval option" where
  "get_id p =
     (case p of
        Null \<Rightarrow> Inl TypeError
      | Obj ps \<Rightarrow> Inr (map_of ps (ascii ''id''))
      | _ \<Rightarrow> Inr None)"

text \<open>
  \<open>a === b\<close> on two values read from properties, the second one never an object of the
  first one's store: \<open>undefined\<close> equals \<open>undefined\<close>, a primitive value equals the same
  primitive value, and an array or an object equals no value that was built elsewhere. Two
  numbers are compared by their literals, the limit of \<open>Num\<close> said above; no statement
  below compares numbers.
\<close>

definition strict_equals :: "jsval option \<Rightarrow> jsval option \<Rightarrow> bool" where
  "strict_equals a b =
     (case a of
        None \<Rightarrow> b = None
      | Some x \<Rightarrow> (case x of Arr vs \<Rightarrow> False | Obj ps \<Rightarrow> False | _ \<Rightarrow> b = Some x))"

text \<open>
  \<open>xs.some(f)\<close> and \<open>xs.filter(f)\<close> call \<open>f\<close> on the elements from the left; \<open>some\<close>
  stops at the first element that satisfies \<open>f\<close>, and an exception of \<open>f\<close> ends either.
  Only an array has the two methods: on any other value the call is a \<open>TypeError\<close>.
\<close>

fun some_list :: "(jsval \<Rightarrow> exn + bool) \<Rightarrow> jsval list \<Rightarrow> exn + bool" where
  "some_list f [] = Inr False"
| "some_list f (p # ps) =
     (case f p of
        Inl e \<Rightarrow> Inl e
      | Inr b \<Rightarrow> if b then Inr True else some_list f ps)"

fun filter_list :: "(jsval \<Rightarrow> exn + bool) \<Rightarrow> jsval list \<Rightarrow> exn + jsval list" where
  "filter_list f [] = Inr []"
| "filter_list f (p # ps) =
     (case f p of
        Inl e \<Rightarrow> Inl e
      | Inr b \<Rightarrow>
          (case filter_list f ps of
             Inl e \<Rightarrow> Inl e
           | Inr qs \<Rightarrow> Inr (if b then p # qs else qs)))"

definition array_some :: "(jsval \<Rightarrow> exn + bool) \<Rightarrow> jsval \<Rightarrow> exn + bool" where
  "array_some f v = (case v of Arr ps \<Rightarrow> some_list f ps | _ \<Rightarrow> Inl TypeError)"

definition array_filter :: "(jsval \<Rightarrow> exn + bool) \<Rightarrow> jsval \<Rightarrow> exn + jsval list" where
  "array_filter f v = (case v of Arr ps \<Rightarrow> filter_list f ps | _ \<Rightarrow> Inl TypeError)"

text \<open>
  \<open>[x, ...v]\<close>. The source spreads \<open>saved\<close> only after \<open>saved.some\<close> has returned, that
  is, only an array.
\<close>

definition spread_after :: "jsval \<Rightarrow> jsval \<Rightarrow> exn + jsval" where
  "spread_after x v = (case v of Arr ps \<Rightarrow> Inr (Arr (x # ps)) | _ \<Rightarrow> Inl TypeError)"

text \<open>\<open>try { body } catch (e) { handler }\<close>, on a body that has run to its result.\<close>

definition try_catch :: "(exn + 'a) \<times> Storage \<Rightarrow> (exn \<Rightarrow> Storage \<Rightarrow> (exn + 'a) \<times> Storage) \<Rightarrow> (exn + 'a) \<times> Storage" where
  "try_catch body handler =
     (case body of
        (Inl e, st) \<Rightarrow> handler e st
      | (Inr r, st) \<Rightarrow> (Inr r, st))"

section \<open>\<open>src/types.ts\<close>\<close>

datatype DifficultyLevel = Beginner | Intermediate | Advanced

fun DifficultyLevel_value :: "DifficultyLevel \<Rightarrow> jsstring" where
  "DifficultyLevel_value Beginner = ascii ''Beginner''"
| "DifficultyLevel_value Intermediate = ascii ''Intermediate''"
| "DifficultyLevel_value Advanced = ascii ''Advanced''"

text \<open>
  The types of TypeScript are erased: at run time a \<open>ProjectIdea\<close> is a JavaScript object.
  The interface names its properties and their types, not their order; the ideas of
  \<open>generateProjectIdeas\<close> are \<open>{ ...item, id: generateId() }\<close>, with \<open>id\<close> after the
  properties of \<open>item\<close>. \<open>is_ProjectIdea v\<close>: \<open>v\<close> is an object with the eight properties of
  the interface, each of its type, in any order a JavaScript object can have.
\<close>

definition is_string :: "jsval \<Rightarrow> bool" where
  "is_string v = (case v of Str s \<Rightarrow> True | _ \<Rightarrow> False)"

definition is_string_array :: "jsval \<Rightarrow> bool" where
  "is_string_array v = (case v of Arr vs \<Rightarrow> list_all is_string vs | _ \<Rightarrow> False)"

definition is_DifficultyLevel :: "jsval \<Rightarrow> bool" where
  "is_DifficultyLevel v \<longleftrightarrow>
     v = Str (DifficultyLevel_value Beginner) \<or> v = Str (DifficultyLevel_value Intermediate) \<or>
     v = Str (DifficultyLevel_value Advanced)"

definition has_property :: "(jsstring \<times> jsval) list \<Rightarrow> string \<Rightarrow> (jsval \<Rightarrow> bool) \<Rightarrow> bool" where
  "has_property ps name P = (case map_of ps (ascii name) of None \<Rightarrow> False | Some x \<Rightarrow> P x)"

definition ProjectIdea_keys :: "jsstring list" where
  "ProjectIdea_keys =
     [ascii ''id'', ascii ''title'', ascii ''oneLiner'', ascii ''description'',
      ascii ''difficulty'', ascii ''domain'', ascii ''keyFeatures'', ascii ''techStack'']"

definition is_ProjectIdea :: "jsval \<Rightarrow> bool" where
  "is_ProjectIdea v =
     (case v of
        Obj ps \<Rightarrow>
          keys_in_order (map fst ps) \<and> set (map fst ps) = set ProjectIdea_keys \<and>
          has_property ps ''id'' is_string \<and>
          has_property ps ''title'' is_string \<and>
          has_property ps ''oneLiner'' is_string \<and>
          has_property ps ''description'' is_string \<and>
          has_property ps ''difficulty'' is_DifficultyLevel \<and>
          has_property ps ''domain'' is_string \<and>
          has_property ps ''keyFeatures'' is_string_array \<and>
          has_property ps ''techStack'' is_string_array
      | _ \<Rightarrow> False)"

section \<open>\<open>src/services/storage.ts\<close>\<close>

definition STORAGE_KEY :: jsstring where
  "STORAGE_KEY = ascii ''neuroscout_saved_projects''"

text \<open>
  Each function takes the storage area and returns its result, or the exception that
  leaves it, with the storage area it leaves behind. \<open>console.error\<close> does not touch the
  storage area and is left out. \<open>data ? JSON.parse(data) : []\<close>: \<open>null\<close> and the empty
  string are the two falsy values \<open>getItem\<close> can return.
\<close>

definition getSavedProjects :: "Storage \<Rightarrow> (exn + jsval) \<times> Storage" where
  "getSavedProjects st =
     try_catch
       (case getItem STORAGE_KEY st of
          (Inl e, st1) \<Rightarrow> (Inl e, st1)
        | (Inr data, st1) \<Rightarrow>
            (case data of
               None \<Rightarrow> (Inr (Arr []), st1)
             | Some d \<Rightarrow> if d = [] then (Inr (Arr []), st1) else (JSON_parse d, st1)))
       (\<lambda>e st'. (Inr (Arr []), st'))"

definition id_is :: "jsstring \<Rightarrow> jsval \<Rightarrow> exn + bool" where
  "id_is i p = (case get_id p of Inl e \<Rightarrow> Inl e | Inr v \<Rightarrow> Inr (v = Some (Str i)))"

definition id_is_not :: "jsstring \<Rightarrow> jsval \<Rightarrow> exn + bool" where
  "id_is_not i p = (case get_id p of Inl e \<Rightarrow> Inl e | Inr v \<Rightarrow> Inr (v \<noteq> Some (Str i)))"

text \<open>
  \<open>p => p.id === idea.id\<close>. Its argument \<open>idea\<close> is the object the caller passes, whatever
  its properties and their order.
\<close>

definition same_id :: "jsval \<Rightarrow> jsval \<Rightarrow> exn + bool" where
  "same_id idea p =
     (case get_id p of
        Inl e \<Rightarrow> Inl e
      | Inr a \<Rightarrow> (case get_id idea of Inl e \<Rightarrow> Inl e | Inr b \<Rightarrow> Inr (strict_equals a b)))"

definition saveProject :: "jsval \<Rightarrow> Storage \<Rightarrow> (exn + bool) \<times> Storage" where
  "saveProject idea st =
     try_catch
       (case getSavedProjects st of
          (Inl e, st1) \<Rightarrow> (Inl e, st1)
        | (Inr saved, st1) \<Rightarrow>
            (case array_some (same_id idea) saved of
               Inl e \<Rightarrow> (Inl e, st1)
             | Inr found \<Rightarrow>
                 if found then (Inr False, st1)
                 else
                   (case spread_after idea saved of
                      Inl e \<Rightarrow> (Inl e, st1)
                    | Inr updated \<Rightarrow>
                        (case setItem STORAGE_KEY (JSON_stringify updated) st1 of
                           (Inl e, st2) \<Rightarrow> (Inl e, st2)
                         | (Inr _, st2) \<Rightarrow> (Inr True, st2)))))
       (\<lambda>e st'. (Inr False, st'))"

definition removeProject :: "jsstring \<Rightarrow> Storage \<Rightarrow> (exn + unit) \<times> Storage" where
  "removeProject i st =
     try_catch
       (case getSavedProjects st of
          (Inl e, st1) \<Rightarrow> (Inl e, st1)
        | (Inr saved, st1) \<Rightarrow>
            (case array_filter (id_is_not i) saved of
               Inl e \<Rightarrow> (Inl e, st1)
             | Inr updated \<Rightarrow> setItem STORAGE_KEY (JSON_stringify (Arr updated)) st1))
       (\<lambda>e st'. (Inr (), st'))"

definition isProjectSaved :: "jsstring \<Rightarrow> Storage \<Rightarrow> (exn + bool) \<times> Storage" where
  "isProjectSaved i st =
     (case getSavedProjects st of
        (Inl e, st1) \<Rightarrow> (Inl e, st1)
      | (Inr saved, st1) \<Rightarrow> (array_some (id_is i) saved, st1))"

section \<open>Definitions for the statements\<close>

text \<open>
  \<open>reads_back v\<close>: with enough fuel, the parser reads \<open>v\<close> back from the text
  \<open>JSON.stringify\<close> writes for it, whatever follows the text.
\<close>

definition reads_back :: "jsval \<Rightarrow> bool" where
  "reads_back v \<longleftrightarrow> (\<exists>n. \<forall>rest. parse_value n (JSON_stringify v @ rest) = Ok (v, rest))"

text \<open>
  The Item of the store: an object with a string under \<open>id\<close>, whatever else it carries and
  in whatever order, in the form \<open>JSON.parse\<close> builds objects. \<open>item_id\<close> is that string.
  Every \<open>ProjectIdea\<close> is one (\<open>is_ProjectIdea_is_item\<close> below).
\<close>

definition item_id :: "jsval \<Rightarrow> jsstring option" where
  "item_id v =
     (case v of
        Obj ps \<Rightarrow> (case map_of ps (ascii ''id'') of Some (Str i) \<Rightarrow> Some i | _ \<Rightarrow> None)
      | _ \<Rightarrow> None)"

definition is_item :: "jsval \<Rightarrow> bool" where
  "is_item v \<longleftrightarrow> canonical v \<and> item_id v \<noteq> None"

text \<open>
  A history of the store: calls of \<open>saveProject\<close> and \<open>removeProject\<close> and, between
  them, changes of the availability of the storage area, which the page does not control.
  In a well-typed history \<open>saveProject\<close> is called on Items.
\<close>

datatype command = Add jsval | Remove jsstring | Adapter bool bool

fun perform :: "command \<Rightarrow> Storage \<Rightarrow> Storage" where
  "perform (Add idea) st = snd (saveProject idea st)"
| "perform (Remove i) st = snd (removeProject i st)"
| "perform (Adapter d f) st = st\<lparr>denied := d, refuses_writes := f\<rparr>"

fun well_typed :: "command \<Rightarrow> bool" where
  "well_typed (Add idea) = is_item idea"
| "well_typed (Remove i) = True"
| "well_typed (Adapter d f) = True"

text \<open>
  \<open>holds st vs\<close>: the persisted collection is \<open>vs\<close>. Either nothing is under the key and
  \<open>vs\<close> is empty, or the text under the key is the one \<open>JSON.stringify\<close> writes for \<open>vs\<close>.
\<close>

definition holds :: "Storage \<Rightarrow> jsval list \<Rightarrow> bool" where
  "holds st vs \<longleftrightarrow>
     (case entries st STORAGE_KEY of
        None \<Rightarrow> vs = []
      | Some d \<Rightarrow> d = JSON_stringify (Arr vs))"

text \<open>
  Two ideas as \<open>generateProjectIdeas\<close> builds them, with \<open>id\<close> last, and two storage areas,
  for the concrete instances below.
\<close>

definition idea_p1 :: jsval where
  "idea_p1 =
     Obj [(ascii ''title'', Str (ascii ''X'')),
          (ascii ''oneLiner'', Str []),
          (ascii ''description'', Str []),
          (ascii ''difficulty'', Str (ascii ''Beginner'')),
          (ascii ''domain'', Str []),
          (ascii ''keyFeatures'', Arr []),
          (ascii ''techStack'', Arr []),
          (ascii ''id'', Str (ascii ''p1''))]"

definition idea_p2 :: jsval where
  "idea_p2 =
     Obj [(ascii ''title'', Str (ascii ''Y'')),
          (ascii ''oneLiner'', Str []),
          (ascii ''description'', Str []),
          (ascii ''difficulty'', Str (ascii ''Advanced'')),
          (ascii ''domain'', Str []),
          (ascii ''keyFeatures'', Arr [Str (ascii ''a'')]),
          (ascii ''techStack'', Arr []),
          (ascii ''id'', Str (ascii ''p2''))]"

definition empty_storage :: Storage where
  "empty_storage = \<lparr>entries = Map.empty, denied = False, refuses_writes = False, setItem_calls = 0\<rparr>"

definition storage_with :: "jsval list \<Rightarrow> Storage" where
  "storage_with vs =
     \<lparr>entries = [STORAGE_KEY \<mapsto> JSON_stringify (Arr vs)],
      denied = False, refuses_writes = False, setItem_calls = 0\<rparr>"

section \<open>The model of JSON on some texts\<close>

text \<open>
  What the two functions of the model do with whitespace, numbers, the order of the
  properties of an object, a key that occurs twice, escapes and surrogates, and some of
  the texts \<open>JSON.parse\<close> rejects.
\<close>

lemmas parse_eval = JSON_parse_def ascii_def skip_ws_def is_ws_def parse_scalar_def parse_key_def
  make_object_def cons_unit_def scan_number_def scan_unsigned_def scan_int_def scan_frac_def
  scan_exp_def scan_digits1_def is_digit_def key_before_def array_index_def digits_value_def
  unescape_def hex4_def hexval_def

lemma parse_whitespace_and_numbers:
  "JSON_parse (ascii '' [ 1.5e+3 , -0 ,true ] '')
   = Inr (Arr [Num (ascii ''1.5e+3''), Num (ascii ''-0''), Bool True])"
  by (simp add: parse_eval)

lemma parse_property_order:
  "JSON_parse (ascii ''{\"b\":1,\"10\":2,\"9\":3,\"b\":null,\"01\":false}'')
   = Inr (Obj [(ascii ''9'', Num (ascii ''3'')), (ascii ''10'', Num (ascii ''2'')),
               (ascii ''b'', Null), (ascii ''01'', Bool False)])"
  by (simp add: parse_eval)

lemma parse_escapes:
  "JSON_parse [0x22, 0x5C, 0x75, 0x30, 0x30, 0x34, 0x31, 0x5C, 0x6E, 0x5C, 0x2F, 0x5C, 0x75, 0x44, 0x38, 0x33, 0x64, 0x22]
   = Inr (Str [0x41, 0x0A, 0x2F, 0xD83D])"
  by (simp add: parse_eval)

lemma parse_rejects:
  "JSON_parse (ascii ''[1,]'') = Inl SyntaxError"
  "JSON_parse (ascii ''01'') = Inl SyntaxError"
  "JSON_parse (ascii ''1.'') = Inl SyntaxError"
  "JSON_parse (ascii ''{\"a\" 1}'') = Inl SyntaxError"
  "JSON_parse (ascii ''nul'') = Inl SyntaxError"
  "JSON_parse (ascii ''[] x'') = Inl SyntaxError"
  "JSON_parse [0x22, 0x09, 0x22] = Inl SyntaxError"
  by (simp_all add: parse_eval)

lemma stringify_escapes:
  "JSON_stringify (Str [0x22, 0x5C, 0x0A, 0x01, 0x7F, 0xD83D, 0xDE00, 0xDE00, 0x2028])
   = [0x22, 0x5C, 0x22, 0x5C, 0x5C, 0x5C, 0x6E, 0x5C, 0x75, 0x30, 0x30, 0x30, 0x31, 0x7F,
      0xD83D, 0xDE00, 0x5C, 0x75, 0x64, 0x65, 0x30, 0x30, 0x2028, 0x22]"
  by (simp add: QuoteJSONString_def UnicodeEscape_def hexdigit_def is_lead_def is_trail_def)

section \<open>\<open>JSON.parse\<close> reads back what \<open>JSON.stringify\<close> writes\<close>

subsection \<open>Strings\<close>

lemma unat_hexdigit:
  assumes "d < (16::code_unit)"
  shows "unat (hexdigit d) = (if unat d < 10 then 48 + unat d else 87 + unat d)"
proof -
  have "unat d < 16" using assms by (simp add: word_less_nat_alt)
  then show ?thesis
    by (simp add: hexdigit_def word_less_nat_alt unat_word_ariths)
qed

lemma hexval_hexdigit: 
  assumes "d < 16" shows "hexval (hexdigit d) = Some d"
proof -
  have d: "unat d < 16" using assms by (simp add: word_less_nat_alt)
  have "hexdigit d - 0x30 = d" if "unat d < 10"
    using that by (simp add: hexdigit_def word_less_nat_alt)
  moreover have "hexdigit d - 0x57 = d" if "\<not> unat d < 10"
    using that by (simp add: hexdigit_def word_less_nat_alt)
  ultimately show ?thesis
    using d by (simp add: hexval_def word_le_nat_alt unat_hexdigit [OF assms])
qed

lemma take_bit_4_less: "take_bit 4 (x::code_unit) < 16"
  using take_bit_nat_less_exp [of 4 "unat x"]
  by (simp add: word_less_nat_alt unsigned_take_bit_eq) 

lemma drop_bit_12_less: "drop_bit 12 (x::code_unit) < 16"
proof -
  have "unat x < 2 ^ 16" using unsigned_less [of x] by simp
  then have "unat x div 2 ^ 12 < 16" by simp
  then show ?thesis
    by (simp add: word_less_nat_alt unat_drop_bit_eq drop_bit_eq_div unat_div)
qed

lemma recombine: "push_bit 12 (drop_bit 12 c) OR push_bit 8 (take_bit 4 (drop_bit 8 c)) OR push_bit 4 (take_bit 4 (drop_bit 4 c)) OR take_bit 4 c = (c::code_unit)"
  apply (rule bit_word_eqI)
  subgoal for n
    by (cases "12 \<le> n"; cases "8 \<le> n"; cases "4 \<le> n") (auto simp: bit_simps)
  done

lemma hex4_hexdigits: "hex4 [hexdigit (drop_bit 12 c), hexdigit (take_bit 4 (drop_bit 8 c)),
      hexdigit (take_bit 4 (drop_bit 4 c)), hexdigit (take_bit 4 c)] = Some c"
  by (simp add: hex4_def hexval_hexdigit take_bit_4_less drop_bit_12_less recombine)

lemma parse_units_UnicodeEscape: "parse_units (UnicodeEscape c @ r) = cons_unit c (parse_units r)"
  by (simp add: UnicodeEscape_def hex4_hexdigits)



lemma parse_units_plain:
  "c \<noteq> 0x22 \<Longrightarrow> c \<noteq> 0x5C \<Longrightarrow> \<not> c < 0x20 \<Longrightarrow> parse_units (c # r) = cons_unit c (parse_units r)"
  by simp

lemma parse_units_escape:
  "unescape e = Some u \<Longrightarrow> e \<noteq> 0x75 \<Longrightarrow> parse_units (0x5C # e # r) = cons_unit u (parse_units r)"
  by simp

lemma parse_units_quote: "parse_units (0x22 # r) = Some ([], r)"
  by simp

lemma surrogate_plain:
  "is_lead c \<or> is_trail c \<Longrightarrow> c \<noteq> 0x22 \<and> c \<noteq> 0x5C \<and> \<not> c < 0x20"
  by (auto simp: is_lead_def is_trail_def word_le_nat_alt word_less_nat_alt)

lemma parse_quote_units: "parse_units (quote_units s @ 0x22 # rest) = Some (s, rest)"
proof (induction "length s" arbitrary: s rule: less_induct)
  case less
  show ?case
  proof (cases s)
    case Nil
    then show ?thesis by (simp del: parse_units.simps add: parse_units_quote)
  next
    case (Cons c cs)
    have IH: "parse_units (quote_units t @ 0x22 # rest) = Some (t, rest)" if "length t \<le> length cs" for t
      using less [of t] that Cons by simp
    have tail: "cons_unit c (parse_units (quote_units cs @ 0x22 # rest)) = Some (c # cs, rest)"
      by (simp add: IH cons_unit_def)
    consider (two) e where "quote_units (c # cs) = 0x5C # e # quote_units cs" "unescape e = Some c" "e \<noteq> 0x75"
      | (esc) "quote_units (c # cs) = UnicodeEscape c @ quote_units cs"
      | (pair) d ds where "cs = d # ds" "quote_units (c # cs) = c # d # quote_units ds" "is_lead c" "is_trail d"
      | (plain) "quote_units (c # cs) = c # quote_units cs" "c \<noteq> 0x22" "c \<noteq> 0x5C" "\<not> c < 0x20"
    proof (cases "c = 0x08 \<or> c = 0x09 \<or> c = 0x0A \<or> c = 0x0C \<or> c = 0x0D \<or> c = 0x22 \<or> c = 0x5C")
      case True
      then show ?thesis
      proof (elim disjE)
        assume "c = 0x08" then show thesis by (intro two [of "0x62"]) (simp_all add: unescape_def)
      next
        assume "c = 0x09" then show thesis by (intro two [of "0x74"]) (simp_all add: unescape_def)
      next
        assume "c = 0x0A" then show thesis by (intro two [of "0x6E"]) (simp_all add: unescape_def)
      next
        assume "c = 0x0C" then show thesis by (intro two [of "0x66"]) (simp_all add: unescape_def)
      next
        assume "c = 0x0D" then show thesis by (intro two [of "0x72"]) (simp_all add: unescape_def)
      next
        assume "c = 0x22" then show thesis by (intro two [of "0x22"]) (simp_all add: unescape_def)
      next
        assume "c = 0x5C" then show thesis by (intro two [of "0x5C"]) (simp_all add: unescape_def)
      qed
    next
      case special: False
      show ?thesis
      proof (cases "c < 0x20")
        case True
        with special show ?thesis by (intro esc) simp
      next
        case printable: False
        show ?thesis
        proof (cases "is_lead c")
          case True
          have q: "quote_units (c # cs) =
              (case cs of [] \<Rightarrow> UnicodeEscape c
               | d # ds \<Rightarrow> if is_trail d then c # d # quote_units ds
                          else UnicodeEscape c @ quote_units cs)"
            using special printable True by simp
          show ?thesis
          proof (cases cs)
            case Nil
            then show ?thesis using q by (intro esc) simp
          next
            case cs: (Cons d ds)
            show ?thesis
            proof (cases "is_trail d")
              case True
              with q cs have "quote_units (c # cs) = c # d # quote_units ds"
                by (simp del: quote_units.simps)
              then show ?thesis using cs \<open>is_lead c\<close> True by (intro pair [of d ds])
            next
              case False
              with q cs have "quote_units (c # cs) = UnicodeEscape c @ quote_units cs"
                by (simp del: quote_units.simps)
              then show ?thesis by (intro esc)
            qed
          qed
        next
          case False
          show ?thesis
          proof (cases "is_trail c")
            case True
            with special printable False show ?thesis by (intro esc) simp
          next
            case nt: False
            with special printable False show ?thesis by (intro plain) simp_all
          qed
        qed
      qed
    qed
    then show ?thesis
    proof cases
      case two
      then show ?thesis
        using tail Cons by (simp del: parse_units.simps quote_units.simps add: parse_units_escape)
    next
      case esc
      then show ?thesis
        using tail Cons by (simp del: parse_units.simps quote_units.simps add: parse_units_UnicodeEscape)
    next
      case pair
      have "parse_units (c # d # quote_units ds @ 0x22 # rest)
          = cons_unit c (cons_unit d (parse_units (quote_units ds @ 0x22 # rest)))"
        using surrogate_plain [of c] surrogate_plain [of d] pair(3,4)
        by (simp del: parse_units.simps quote_units.simps add: parse_units_plain)
      also have "\<dots> = Some (c # d # ds, rest)"
        using IH [of ds] pair(1) by (simp add: cons_unit_def)
      finally show ?thesis
        using pair(1,2) Cons by (simp del: parse_units.simps quote_units.simps)
    next
      case plain
      then show ?thesis
        using tail Cons by (simp del: parse_units.simps quote_units.simps add: parse_units_plain)
    qed
  qed
qed

subsection \<open>Fuel\<close>

lemma parse_fuel_mono_aux:
  "(\<forall>s. parse_value n s \<noteq> OutOfFuel \<longrightarrow> parse_value (n + k) s = parse_value n s) \<and>
   (\<forall>s. parse_elements n s \<noteq> OutOfFuel \<longrightarrow> parse_elements (n + k) s = parse_elements n s) \<and>
   (\<forall>s. parse_members n s \<noteq> OutOfFuel \<longrightarrow> parse_members (n + k) s = parse_members n s)"
proof (induction n)
  case 0
  show ?case by simp
next
  case (Suc n)
  have V: "parse_value (n + k) s = parse_value n s" if "parse_value n s \<noteq> OutOfFuel" for s
    using Suc that by blast
  have E: "parse_elements (n + k) s = parse_elements n s" if "parse_elements n s \<noteq> OutOfFuel" for s
    using Suc that by blast
  have M: "parse_members (n + k) s = parse_members n s" if "parse_members n s \<noteq> OutOfFuel" for s
    using Suc that by blast
  show ?case
  proof (intro conjI allI impI)
    fix s
    assume a: "parse_value (Suc n) s \<noteq> OutOfFuel"
    show "parse_value (Suc n + k) s = parse_value (Suc n) s"
    proof (cases "skip_ws s")
      case Nil
      then show ?thesis by simp
    next
      case (Cons c cs)
      show ?thesis
      proof (cases "skip_ws cs")
        case Nil
        then show ?thesis using Cons by simp
      next
        case d: (Cons d ds)
        have e: "parse_elements (n + k) cs = parse_elements n cs" if "c = 0x5B" "d \<noteq> 0x5D"
          using a Cons d that by (intro E) (auto split: parsed.splits)
        have m: "parse_members (n + k) cs = parse_members n cs" if "c \<noteq> 0x5B" "c = 0x7B" "d \<noteq> 0x7D"
          using a Cons d that by (intro M) (auto split: parsed.splits)
        show ?thesis using Cons d e m by simp
      qed
    qed
  next
    fix s
    assume a: "parse_elements (Suc n) s \<noteq> OutOfFuel"
    then have v: "parse_value (n + k) s = parse_value n s"
      by (intro V) (auto split: parsed.splits)
    show "parse_elements (Suc n + k) s = parse_elements (Suc n) s"
    proof (cases "parse_value n s")
      case (Ok r)
      obtain w rest where r: "r = (w, rest)" by (cases r)
      show ?thesis
      proof (cases "skip_ws rest")
        case Nil
        then show ?thesis using v Ok r by simp
      next
        case (Cons c cs)
        have "parse_elements (n + k) cs = parse_elements n cs" if "c \<noteq> 0x5D" "c = 0x2C"
          using a Ok r Cons that by (intro E) (auto split: parsed.splits)
        then show ?thesis using v Ok r Cons by simp
      qed
    qed (use v in simp_all)
  next
    fix s
    assume a: "parse_members (Suc n) s \<noteq> OutOfFuel"
    show "parse_members (Suc n + k) s = parse_members (Suc n) s"
    proof (cases "parse_key s")
      case None
      then show ?thesis by simp
    next
      case (Some kr)
      obtain key cs where kr: "kr = (key, cs)" by (cases kr)
      have v: "parse_value (n + k) cs = parse_value n cs"
        using a Some kr by (intro V) (auto split: parsed.splits)
      show ?thesis
      proof (cases "parse_value n cs")
        case (Ok r)
        obtain w rest where r: "r = (w, rest)" by (cases r)
        show ?thesis
        proof (cases "skip_ws rest")
          case Nil
          then show ?thesis using Some kr v Ok r by simp
        next
          case d: (Cons d ds)
          have "parse_members (n + k) ds = parse_members n ds" if "d \<noteq> 0x7D" "d = 0x2C"
            using a Some kr Ok r d that by (intro M) (auto split: parsed.splits)
          then show ?thesis using Some kr v Ok r d by simp
        qed
      qed (use Some kr v in simp_all)
    qed
  qed
qed

lemma parse_value_mono: "parse_value n s = Ok r \<Longrightarrow> n \<le> m \<Longrightarrow> parse_value m s = Ok r"
  using parse_fuel_mono_aux [of n "m - n"] by auto

lemma parse_elements_mono: "parse_elements n s = Ok r \<Longrightarrow> n \<le> m \<Longrightarrow> parse_elements m s = Ok r"
  using parse_fuel_mono_aux [of n "m - n"] by auto

lemma parse_members_mono: "parse_members n s = Ok r \<Longrightarrow> n \<le> m \<Longrightarrow> parse_members m s = Ok r"
  using parse_fuel_mono_aux [of n "m - n"] by auto

lemma parse_value_fuel_irrelevant:
  "parse_value n s \<noteq> OutOfFuel \<Longrightarrow> n \<le> m \<Longrightarrow> parse_value m s = parse_value n s"
  using parse_fuel_mono_aux [of n "m - n"] by auto

lemma skip_ws_length: "length (skip_ws s) \<le> length s"
  by (simp add: skip_ws_def length_dropWhile_le)

lemma skip_ws_Cons_length: "skip_ws s = c # cs \<Longrightarrow> length cs < length s"
  using skip_ws_length [of s] by simp

lemma cons_unit_Some: "cons_unit c r = Some (k, rest) \<longleftrightarrow> (\<exists>k'. r = Some (k', rest) \<and> k = c # k')"
  by (auto simp: cons_unit_def split: option.splits)

lemma parse_units_length: "parse_units s = Some (k, rest) \<Longrightarrow> length rest < length s"
proof (induction "length s" arbitrary: s k rule: less_induct)
  case less
  show ?case
  proof (cases s)
    case Nil
    then show ?thesis using less.prems by simp
  next
    case (Cons c cs)
    have IH: "length rest < length t" if "parse_units t = Some (k', rest)" "length t \<le> length cs" for t k'
      using less.hyps [of t k'] that Cons by simp
    show ?thesis
      using less.prems Cons
      by (auto simp: cons_unit_Some split: if_splits list.splits option.splits dest!: IH)
  qed
qed

lemma scan_int_length: "scan_int s = Some (l, rest) \<Longrightarrow> length rest < length s"
  using length_dropWhile_le [of is_digit "tl s"]
  by (auto simp: scan_int_def split: list.splits if_splits)

lemma scan_frac_length: "scan_frac s = Some (l, rest) \<Longrightarrow> length rest \<le> length s"
  using length_dropWhile_le [of is_digit "tl s"]
  by (auto simp: scan_frac_def split: list.splits if_splits)

lemma scan_digits1_length: "scan_digits1 s = Some (l, rest) \<Longrightarrow> length rest \<le> length s"
  using length_dropWhile_le [of is_digit s]
  by (auto simp: scan_digits1_def split: if_splits)

lemma scan_exp_length: "scan_exp s = Some (l, rest) \<Longrightarrow> length rest \<le> length s"
  by (auto simp: scan_exp_def split: list.splits if_splits option.splits dest!: scan_digits1_length)

lemma scan_unsigned_length: "scan_unsigned s = Some (l, rest) \<Longrightarrow> length rest < length s"
  by (auto simp: scan_unsigned_def split: option.splits
      dest!: scan_int_length scan_frac_length scan_exp_length)

lemma scan_number_length: "scan_number s = Some (l, rest) \<Longrightarrow> length rest < length s"
  by (auto simp: scan_number_def split: list.splits if_splits option.splits
      dest!: scan_unsigned_length)

lemma literal_length:
  assumes "take n s = ascii lit" "length lit = n" "lit \<noteq> []"
  shows "length (drop n s) < length s"
proof -
  have "length (take n s) = n"
    using assms(1,2) by (simp add: ascii_def)
  then have "n \<le> length s" by (simp add: min_def split: if_splits)
  moreover have "0 < n" using assms(2,3) by auto
  ultimately show ?thesis by simp
qed

lemma parse_scalar_length:
  assumes a: "parse_scalar s = Ok (v, rest)"
  shows "length rest < length s"
proof (cases s)
  case Nil
  then show ?thesis using a by (simp add: parse_scalar_def)
next
  case (Cons c cs)
  have l4: "length (drop 4 s) < length s" if "take 4 s = ascii ''null''"
    using literal_length [OF that] by simp
  have l4': "length (drop 4 s) < length s" if "take 4 s = ascii ''true''"
    using literal_length [OF that] by simp
  have l5: "length (drop 5 s) < length s" if "take 5 s = ascii ''false''"
    using literal_length [OF that] by simp
  show ?thesis
  proof (cases "c = 0x22")
    case True
    then show ?thesis
      using a Cons by (auto simp: parse_scalar_def split: option.splits dest!: parse_units_length)
  next
    case False
    have "parse_scalar s =
      (if take 4 s = ascii ''null'' then Ok (Null, drop 4 s)
          else if take 4 s = ascii ''true'' then Ok (Bool True, drop 4 s)
          else if take 5 s = ascii ''false'' then Ok (Bool False, drop 5 s)
          else
            (case scan_number s of
               None \<Rightarrow> Reject
             | Some (l, rest) \<Rightarrow> Ok (Num l, rest)))"
      unfolding parse_scalar_def Cons using False by (simp del: take_Suc_Cons drop_Suc_Cons)
    then show ?thesis
      using a l4 l4' l5
      by (auto split: if_splits option.splits dest!: scan_number_length)
  qed
qed

lemma parse_key_length:
  assumes a: "parse_key s = Some (k, rest)"
  shows "length rest < length s"
proof -
  from a obtain q qs where q: "skip_ws s = q # qs"
    by (auto simp: parse_key_def split: list.splits)
  with a obtain s1 where k: "parse_units qs = Some (k, s1)"
    by (auto simp: parse_key_def split: option.splits if_splits list.splits)
  with a q obtain c where c: "skip_ws s1 = c # rest"
    by (auto simp: parse_key_def split: option.splits if_splits list.splits)
  show ?thesis
    using skip_ws_Cons_length [OF q] parse_units_length [OF k] skip_ws_Cons_length [OF c] by simp
qed


lemma parse_consumes_aux:
  "(\<forall>s v rest. parse_value n s = Ok (v, rest) \<longrightarrow> length rest < length s) \<and>
   (\<forall>s vs rest. parse_elements n s = Ok (vs, rest) \<longrightarrow> length rest < length s) \<and>
   (\<forall>s ms rest. parse_members n s = Ok (ms, rest) \<longrightarrow> length rest < length s)"
proof (induction n)
  case 0
  show ?case by simp
next
  case (Suc n)
  have V: "length rest < length s" if "parse_value n s = Ok (v, rest)" for s v rest
    using Suc that by blast
  have E: "length rest < length s" if "parse_elements n s = Ok (vs, rest)" for s vs rest
    using Suc that by blast
  have M: "length rest < length s" if "parse_members n s = Ok (ms, rest)" for s ms rest
    using Suc that by blast
  show ?case
  proof (intro conjI allI impI)
    fix s v rest
    assume a: "parse_value (Suc n) s = Ok (v, rest)"
    show "length rest < length s"
    proof (cases "skip_ws s")
      case Nil
      then show ?thesis using a by simp
    next
      case (Cons c cs)
      note len = skip_ws_Cons_length [OF Cons]
      consider (arr) "c = 0x5B" | (obj) "c \<noteq> 0x5B" "c = 0x7B" | (other) "c \<noteq> 0x5B" "c \<noteq> 0x7B"
        by blast
      then show ?thesis
      proof cases
        case arr
        show ?thesis
        proof (cases "skip_ws cs")
          case Nil
          then show ?thesis using a Cons arr by simp
        next
          case d: (Cons d ds)
          then show ?thesis
            using a Cons arr len skip_ws_Cons_length [OF d]
            by (auto split: if_splits parsed.splits dest!: E)
        qed
      next
        case obj
        show ?thesis
        proof (cases "skip_ws cs")
          case Nil
          then show ?thesis using a Cons obj by simp
        next
          case d: (Cons d ds)
          then show ?thesis
            using a Cons obj len skip_ws_Cons_length [OF d]
            by (auto split: if_splits parsed.splits dest!: M)
        qed
      next
        case other
        then have "parse_scalar (c # cs) = Ok (v, rest)"
          using a Cons by simp
        then show ?thesis
          using parse_scalar_length [of "c # cs" v rest] len by simp
      qed
    qed
  next
    fix s vs rest
    assume a: "parse_elements (Suc n) s = Ok (vs, rest)"
    then obtain v r1 where v: "parse_value n s = Ok (v, r1)"
      by (auto split: parsed.splits)
    note l1 = V [OF v]
    show "length rest < length s"
    proof (cases "skip_ws r1")
      case Nil
      then show ?thesis using a v by simp
    next
      case (Cons c cs)
      then show ?thesis
        using a v l1 skip_ws_Cons_length [OF Cons]
        by (auto split: if_splits parsed.splits dest!: E)
    qed
  next
    fix s ms rest
    assume a: "parse_members (Suc n) s = Ok (ms, rest)"
    then obtain k cs where k: "parse_key s = Some (k, cs)"
      by (auto split: option.splits)
    with a obtain v r1 where v: "parse_value n cs = Ok (v, r1)"
      by (auto split: parsed.splits)
    with a k obtain d ds where d: "skip_ws r1 = d # ds"
      by (auto split: list.splits)
    have "length ds < length s"
      using parse_key_length [OF k] V [OF v] skip_ws_Cons_length [OF d] by simp
    then show "length rest < length s"
      using a k v d by (auto split: if_splits parsed.splits dest!: M)
  qed
qed

lemma parse_value_consumes: "parse_value n s = Ok (v, rest) \<Longrightarrow> length rest < length s"
  using parse_consumes_aux [of n] by blast

lemma parse_enough_fuel_aux:
  "(\<forall>s. 2 * length s < n \<longrightarrow> parse_value n s \<noteq> OutOfFuel) \<and>
   (\<forall>s. 2 * length s + 1 < n \<longrightarrow> parse_elements n s \<noteq> OutOfFuel) \<and>
   (\<forall>s. 2 * length s < n \<longrightarrow> parse_members n s \<noteq> OutOfFuel)"
proof (induction n)
  case 0
  show ?case by simp
next
  case (Suc n)
  have V: "parse_value n s \<noteq> OutOfFuel" if "2 * length s < n" for s
    using Suc that by blast
  have E: "parse_elements n s \<noteq> OutOfFuel" if "2 * length s + 1 < n" for s
    using Suc that by blast
  have M: "parse_members n s \<noteq> OutOfFuel" if "2 * length s < n" for s
    using Suc that by blast
  show ?case
  proof (intro conjI allI impI)
    fix s :: jsstring
    assume a: "2 * length s < Suc n"
    show "parse_value (Suc n) s \<noteq> OutOfFuel"
    proof (cases "skip_ws s")
      case Nil
      then show ?thesis by simp
    next
      case (Cons c cs)
      have len: "2 * length cs + 1 < n"
        using skip_ws_Cons_length [OF Cons] a by simp
      have "parse_scalar (c # cs) \<noteq> OutOfFuel"
        by (auto simp: parse_scalar_def split: option.splits)
      then show ?thesis
        using Cons E [OF len] M [of cs] len
        by (auto split: list.splits parsed.splits)
    qed
  next
    fix s :: jsstring
    assume a: "2 * length s + 1 < Suc n"
    then have v: "parse_value n s \<noteq> OutOfFuel"
      by (intro V) simp
    show "parse_elements (Suc n) s \<noteq> OutOfFuel"
    proof (cases "parse_value n s")
      case (Ok r)
      obtain w r1 where r: "r = (w, r1)" by (cases r)
      show ?thesis
      proof (cases "skip_ws r1")
        case Nil
        then show ?thesis using Ok r by simp
      next
        case (Cons c cs)
        have "2 * length cs + 1 < n"
          using parse_value_consumes [of n s w r1] Ok r skip_ws_Cons_length [OF Cons] a by simp
        then show ?thesis
          using Ok r Cons E [of cs] by (auto split: parsed.splits)
      qed
    qed (use v in simp_all)
  next
    fix s :: jsstring
    assume a: "2 * length s < Suc n"
    show "parse_members (Suc n) s \<noteq> OutOfFuel"
    proof (cases "parse_key s")
      case None
      then show ?thesis by simp
    next
      case (Some kr)
      obtain k cs where kr: "kr = (k, cs)" by (cases kr)
      have l1: "length cs < length s"
        using parse_key_length [of s k cs] Some kr by simp
      then have v: "parse_value n cs \<noteq> OutOfFuel"
        using a by (intro V) simp
      show ?thesis
      proof (cases "parse_value n cs")
        case (Ok r)
        obtain w r1 where r: "r = (w, r1)" by (cases r)
        show ?thesis
        proof (cases "skip_ws r1")
          case Nil
          then show ?thesis using Some kr Ok r by simp
        next
          case (Cons d ds)
          have "2 * length ds < n"
            using parse_value_consumes [of n cs w r1] Ok r skip_ws_Cons_length [OF Cons] a l1 by simp
          then show ?thesis
            using Some kr Ok r Cons M [of ds] by (auto split: parsed.splits)
        qed
      qed (use Some kr v in simp_all)
    qed
  qed
qed

lemma parse_value_enough_fuel: "parse_value (Suc (length s + length s)) s \<noteq> OutOfFuel"
  using parse_enough_fuel_aux [of "Suc (length s + length s)"] by simp

lemma JSON_parse_eq:
  assumes "parse_value n s = Ok (v, rest)" "skip_ws rest = []"
  shows "JSON_parse s = Inr v"
proof -
  let ?N = "Suc (length s + length s)"
  have "parse_value ?N s = Ok (v, rest)"
  proof (cases "n \<le> ?N")
    case True
    then show ?thesis using assms(1) by (rule parse_value_mono [rotated])
  next
    case False
    then have "parse_value n s = parse_value ?N s"
      using parse_value_fuel_irrelevant [OF parse_value_enough_fuel, of s n] by simp
    then show ?thesis using assms(1) by simp
  qed
  then show ?thesis using assms(2) by (simp add: JSON_parse_def)
qed

subsection \<open>Values\<close>

lemma skip_ws_Cons: "\<not> is_ws c \<Longrightarrow> skip_ws (c # s) = c # s"
  by (simp add: skip_ws_def)

lemma stringify_head:
  "canonical v \<Longrightarrow> \<exists>c t. JSON_stringify v = c # t \<and> \<not> is_ws c \<and> c \<noteq> 0x5D \<and> c \<noteq> 0x7D"
  by (cases v) (simp_all add: ascii_def QuoteJSONString_def is_ws_def)

lemma parse_key_quoted: "parse_key (QuoteJSONString k @ 0x3A # t) = Some (k, t)"
  by (simp add: parse_key_def QuoteJSONString_def skip_ws_def is_ws_def parse_quote_units
      del: parse_units.simps)

lemma CreateDataProperty_last:
  "k \<notin> fst ` set ps \<Longrightarrow> \<forall>p\<in>set ps. \<not> key_before k (fst p) \<Longrightarrow>
   CreateDataProperty k v ps = ps @ [(k, v)]"
  by (induction ps) auto

lemma foldl_CreateDataProperty:
  "keys_in_order (map fst (acc @ ms)) \<Longrightarrow>
   foldl (\<lambda>ps (k, v). CreateDataProperty k v ps) acc ms = acc @ ms"
proof (induction ms arbitrary: acc)
  case Nil
  show ?case by simp
next
  case (Cons m ms)
  obtain k v where m: "m = (k, v)" by (cases m)
  have "CreateDataProperty k v acc = acc @ [(k, v)]"
    using Cons.prems m
    by (intro CreateDataProperty_last) (auto simp: keys_in_order_def sorted_wrt_append)
  moreover have "keys_in_order (map fst ((acc @ [m]) @ ms))"
    using Cons.prems by simp
  ultimately show ?case
    using Cons.IH [of "acc @ [m]"] m by simp
qed

lemma make_object_canonical: "keys_in_order (map fst ps) \<Longrightarrow> make_object ps = Obj ps"
  using foldl_CreateDataProperty [of "[]" ps] by (simp add: make_object_def)

lemma parse_scalar_null: "parse_scalar (ascii ''null'' @ rest) = Ok (Null, rest)"
  by (simp add: parse_scalar_def ascii_def)

lemma parse_scalar_true: "parse_scalar (ascii ''true'' @ rest) = Ok (Bool True, rest)"
  by (simp add: parse_scalar_def ascii_def)

lemma parse_scalar_false: "parse_scalar (ascii ''false'' @ rest) = Ok (Bool False, rest)"
  by (simp add: parse_scalar_def ascii_def)

lemma parse_scalar_string: "parse_scalar (QuoteJSONString s @ rest) = Ok (Str s, rest)"
  by (simp add: parse_scalar_def QuoteJSONString_def parse_quote_units del: parse_units.simps)

lemma parse_value_scalar:
  "\<not> is_ws c \<Longrightarrow> c \<noteq> 0x5B \<Longrightarrow> c \<noteq> 0x7B \<Longrightarrow> parse_value (Suc n) (c # t) = parse_scalar (c # t)"
  by (simp add: skip_ws_Cons)

lemma parse_value_Null: "parse_value (Suc n) (JSON_stringify Null @ rest) = Ok (Null, rest)"
  using parse_value_scalar [of "0x6E" n "ascii ''ull'' @ rest"] parse_scalar_null [of rest]
  by (simp add: ascii_def is_ws_def)

lemma parse_value_Bool: "parse_value (Suc n) (JSON_stringify (Bool b) @ rest) = Ok (Bool b, rest)"
  using parse_value_scalar [of "0x74" n "ascii ''rue'' @ rest"] parse_scalar_true [of rest]
    parse_value_scalar [of "0x66" n "ascii ''alse'' @ rest"] parse_scalar_false [of rest]
  by (simp add: ascii_def is_ws_def)

lemma parse_value_Str: "parse_value (Suc n) (JSON_stringify (Str s) @ rest) = Ok (Str s, rest)"
  using parse_value_scalar [of "0x22" n "quote_units s @ 0x22 # rest"] parse_scalar_string [of s rest]
  by (simp add: QuoteJSONString_def is_ws_def)

lemma parse_value_empty_array: "parse_value (Suc n) (JSON_stringify (Arr []) @ rest) = Ok (Arr [], rest)"
  by (simp add: skip_ws_def is_ws_def)

lemma parse_value_empty_object: "parse_value (Suc n) (JSON_stringify (Obj []) @ rest) = Ok (Obj [], rest)"
  by (simp add: skip_ws_def is_ws_def)

lemma parse_value_array:
  assumes "parse_elements n (t @ 0x5D # rest) = Ok (vs, rest)" "t = c # t'" "\<not> is_ws c" "c \<noteq> 0x5D"
  shows "parse_value (Suc n) (0x5B # t @ 0x5D # rest) = Ok (Arr vs, rest)"
  using assms by (simp add: skip_ws_def is_ws_def)

lemma parse_value_object:
  assumes "parse_members n (t @ 0x7D # rest) = Ok (ms, rest)" "t = c # t'" "\<not> is_ws c" "c \<noteq> 0x7D"
  shows "parse_value (Suc n) (0x7B # t @ 0x7D # rest) = Ok (make_object ms, rest)"
  using assms by (simp add: skip_ws_def is_ws_def)

lemma parse_elements_last:
  assumes "parse_value n (t @ 0x5D # rest) = Ok (v, 0x5D # rest)"
  shows "parse_elements (Suc n) (t @ 0x5D # rest) = Ok ([v], rest)"
  using assms by (simp add: skip_ws_def is_ws_def)

lemma parse_elements_more:
  assumes "parse_value n (t @ 0x2C # u) = Ok (v, 0x2C # u)" "parse_elements n u = Ok (vs, rest)"
  shows "parse_elements (Suc n) (t @ 0x2C # u) = Ok (v # vs, rest)"
  using assms by (simp add: skip_ws_def is_ws_def)

lemma parse_members_last:
  assumes "parse_value n (t @ 0x7D # rest) = Ok (v, 0x7D # rest)"
  shows "parse_members (Suc n) (QuoteJSONString k @ 0x3A # t @ 0x7D # rest) = Ok ([(k, v)], rest)"
  using assms by (simp add: parse_key_quoted skip_ws_def is_ws_def)

lemma parse_members_more:
  assumes "parse_value n (t @ 0x2C # u) = Ok (v, 0x2C # u)" "parse_members n u = Ok (ms, rest)"
  shows "parse_members (Suc n) (QuoteJSONString k @ 0x3A # t @ 0x2C # u) = Ok ((k, v) # ms, rest)"
  using assms by (simp add: parse_key_quoted skip_ws_def is_ws_def)

lemma reads_backD:
  assumes "reads_back v"
  shows "\<exists>n. \<forall>m rest. n \<le> m \<longrightarrow> parse_value m (JSON_stringify v @ rest) = Ok (v, rest)"
proof -
  from assms obtain n where n: "\<And>rest. parse_value n (JSON_stringify v @ rest) = Ok (v, rest)"
    unfolding reads_back_def by blast
  have "parse_value m (JSON_stringify v @ rest) = Ok (v, rest)" if "n \<le> m" for m rest
    using parse_value_mono [OF n that] .
  then show ?thesis by blast
qed

lemma elements_read_back:
  assumes "vs \<noteq> []" "\<And>v. v \<in> set vs \<Longrightarrow> reads_back v"
  shows "\<exists>n. \<forall>rest. parse_elements n (join_comma (map JSON_stringify vs) @ 0x5D # rest) = Ok (vs, rest)"
  using assms
proof (induction vs rule: list_nonempty_induct)
  case (single v)
  then have "reads_back v" by simp
  then obtain n where n: "\<And>m rest. n \<le> m \<Longrightarrow> parse_value m (JSON_stringify v @ rest) = Ok (v, rest)"
    using reads_backD by blast
  have "parse_elements (Suc n) (JSON_stringify v @ 0x5D # rest) = Ok ([v], rest)" for rest
    by (rule parse_elements_last) (simp add: n)
  then show ?case by (auto simp del: parse_elements.simps)
next
  case (cons v vs)
  then have "reads_back v" by simp
  then obtain n where n: "\<And>m rest. n \<le> m \<Longrightarrow> parse_value m (JSON_stringify v @ rest) = Ok (v, rest)"
    using reads_backD by blast
  from cons obtain k where
    k: "\<And>rest. parse_elements k (join_comma (map JSON_stringify vs) @ 0x5D # rest) = Ok (vs, rest)"
    by auto
  obtain w ws where vs: "vs = w # ws" using cons.hyps by (cases vs) auto
  have "parse_elements (Suc (n + k))
          (JSON_stringify v @ 0x2C # join_comma (map JSON_stringify vs) @ 0x5D # rest)
        = Ok (v # vs, rest)" for rest
    by (rule parse_elements_more) (simp_all add: n parse_elements_mono [OF k])
  then show ?case
    using vs by (auto simp del: parse_elements.simps)
qed

lemma members_read_back:
  assumes "ps \<noteq> []" "\<And>p. p \<in> set ps \<Longrightarrow> reads_back (snd p)"
  shows "\<exists>n. \<forall>rest. parse_members n
      (join_comma (map (\<lambda>(k, v). QuoteJSONString k @ 0x3A # JSON_stringify v) ps) @ 0x7D # rest)
      = Ok (ps, rest)"
  using assms
proof (induction ps rule: list_nonempty_induct)
  case (single p)
  obtain key v where p: "p = (key, v)" by (cases p)
  have "reads_back (snd p)" by (rule single) simp
  then have "reads_back v" using p by simp
  then obtain n where n: "\<And>m rest. n \<le> m \<Longrightarrow> parse_value m (JSON_stringify v @ rest) = Ok (v, rest)"
    using reads_backD by blast
  have "parse_members (Suc n) (QuoteJSONString key @ 0x3A # JSON_stringify v @ 0x7D # rest)
        = Ok ([(key, v)], rest)" for rest
    by (rule parse_members_last) (simp add: n)
  then show ?case using p by (auto simp del: parse_members.simps)
next
  case (cons p ps)
  obtain key v where p: "p = (key, v)" by (cases p)
  have "reads_back (snd p)" by (rule cons.prems) simp
  then have "reads_back v" using p by simp
  then obtain n where n: "\<And>m rest. n \<le> m \<Longrightarrow> parse_value m (JSON_stringify v @ rest) = Ok (v, rest)"
    using reads_backD by blast
  from cons obtain k where
    k: "\<And>rest. parse_members k
      (join_comma (map (\<lambda>(k, v). QuoteJSONString k @ 0x3A # JSON_stringify v) ps) @ 0x7D # rest)
      = Ok (ps, rest)"
    by auto
  obtain q qs where ps: "ps = q # qs" using cons.hyps by (cases ps) auto
  have "parse_members (Suc (n + k))
          (QuoteJSONString key @ 0x3A # JSON_stringify v @ 0x2C #
           join_comma (map (\<lambda>(k, v). QuoteJSONString k @ 0x3A # JSON_stringify v) ps) @ 0x7D # rest)
        = Ok ((key, v) # ps, rest)" for rest
    by (rule parse_members_more) (simp_all add: n parse_members_mono [OF k])
  then show ?case
    using p ps by (auto simp del: parse_members.simps)
qed

lemma canonical_reads_back: "canonical v \<Longrightarrow> reads_back v"
proof (induction v)
  case Null
  show ?case unfolding reads_back_def using parse_value_Null by blast
next
  case (Bool b)
  show ?case unfolding reads_back_def using parse_value_Bool by blast
next
  case (Num l)
  then show ?case by simp
next
  case (Str s)
  show ?case unfolding reads_back_def using parse_value_Str by blast
next
  case (Arr vs)
  show ?case
  proof (cases vs)
    case Nil
    then show ?thesis unfolding reads_back_def using parse_value_empty_array by blast
  next
    case (Cons w ws)
    have all: "\<And>v. v \<in> set vs \<Longrightarrow> reads_back v"
      using Arr by (simp add: list_all_iff)
    then obtain n where
      n: "\<And>rest. parse_elements n (join_comma (map JSON_stringify vs) @ 0x5D # rest) = Ok (vs, rest)"
      using elements_read_back [of vs] Cons by auto
    have "canonical w" using Arr.prems Cons by simp
    then obtain c t where c: "JSON_stringify w = c # t" "\<not> is_ws c" "c \<noteq> 0x5D"
      using stringify_head by blast
    then obtain t' where t': "join_comma (map JSON_stringify vs) = c # t'"
      using Cons by (cases ws) auto
    have "parse_value (Suc n) (JSON_stringify (Arr vs) @ rest) = Ok (Arr vs, rest)" for rest
      using parse_value_array [OF n t' c(2,3), of rest] by (simp del: parse_value.simps)
    then show ?thesis unfolding reads_back_def by blast
  qed
next
  case (Obj ps)
  show ?case
  proof (cases ps)
    case Nil
    then show ?thesis unfolding reads_back_def using parse_value_empty_object by blast
  next
    case (Cons q qs)
    have all: "\<And>p. p \<in> set ps \<Longrightarrow> reads_back (snd p)"
    proof -
      fix p assume p: "p \<in> set ps"
      then have "canonical (snd p)" using Obj.prems by (simp add: list_all_iff)
      moreover have "snd p \<in> Basic_BNFs.snds p" by (cases p) simp
      ultimately show "reads_back (snd p)" using Obj.IH p by blast
    qed
    then obtain n where
      n: "\<And>rest. parse_members n
        (join_comma (map (\<lambda>(k, v). QuoteJSONString k @ 0x3A # JSON_stringify v) ps) @ 0x7D # rest)
        = Ok (ps, rest)"
      using members_read_back [of ps] Cons by auto
    obtain t' where t': "join_comma (map (\<lambda>(k, v). QuoteJSONString k @ 0x3A # JSON_stringify v) ps) = 0x22 # t'"
      using Cons by (cases q; cases qs) (auto simp: QuoteJSONString_def)
    have "make_object ps = Obj ps"
      using Obj.prems by (simp add: make_object_canonical)
    then have "parse_value (Suc n) (JSON_stringify (Obj ps) @ rest) = Ok (Obj ps, rest)" for rest
      using parse_value_object [OF n t', of rest] by (simp add: is_ws_def del: parse_value.simps)
    then show ?thesis unfolding reads_back_def by blast
  qed
qed

lemma JSON_parse_stringify: "canonical v \<Longrightarrow> JSON_parse (JSON_stringify v) = Inr v"
proof -
  assume "canonical v"
  then obtain n where "parse_value n (JSON_stringify v @ []) = Ok (v, [])"
    using canonical_reads_back unfolding reads_back_def by blast
  then show ?thesis
    using JSON_parse_eq [of n "JSON_stringify v" v "[]"] by (simp add: skip_ws_def)
qed

section \<open>Reading\<close>

lemma try_catch_returns:
  assumes "\<And>e st'. \<exists>r. fst (handler e st') = Inr r"
  shows "\<exists>r. fst (try_catch body handler) = Inr r"
proof (cases body)
  case (Pair res st')
  then show ?thesis
    using assms by (cases res) (simp_all add: try_catch_def)
qed

lemma JSON_parse_error: "JSON_parse d = Inl e \<Longrightarrow> e = SyntaxError"
  by (auto simp: JSON_parse_def split: parsed.splits prod.splits if_splits)

lemma getSavedProjects_state: "snd (getSavedProjects st) = st"
  by (cases "entries st STORAGE_KEY"; cases "JSON_parse (the (entries st STORAGE_KEY))")
     (simp_all add: getSavedProjects_def try_catch_def getItem_def)

lemma getSavedProjects_returns: "\<exists>v. fst (getSavedProjects st) = Inr v"
  unfolding getSavedProjects_def by (rule try_catch_returns) simp

lemma getSavedProjects_denied: "denied st \<Longrightarrow> getSavedProjects st = (Inr (Arr []), st)"
  by (simp add: getSavedProjects_def try_catch_def getItem_def)

lemma getSavedProjects_absent:
  "entries st STORAGE_KEY = None \<Longrightarrow> getSavedProjects st = (Inr (Arr []), st)"
  by (simp add: getSavedProjects_def try_catch_def getItem_def)

lemma getSavedProjects_empty_string:
  "entries st STORAGE_KEY = Some [] \<Longrightarrow> getSavedProjects st = (Inr (Arr []), st)"
  by (simp add: getSavedProjects_def try_catch_def getItem_def)

lemma getSavedProjects_malformed:
  "entries st STORAGE_KEY = Some d \<Longrightarrow> JSON_parse d = Inl e \<Longrightarrow>
   getSavedProjects st = (Inr (Arr []), st)"
  by (simp add: getSavedProjects_def try_catch_def getItem_def)

lemma getSavedProjects_parsed:
  "\<not> denied st \<Longrightarrow> entries st STORAGE_KEY = Some d \<Longrightarrow> d \<noteq> [] \<Longrightarrow> JSON_parse d = Inr v \<Longrightarrow>
   getSavedProjects st = (Inr v, st)"
  by (simp add: getSavedProjects_def try_catch_def getItem_def)

text \<open>
  C3, the claim as it is written, fails: a stored text that is JSON but not a collection
  of ideas is not turned into the empty sequence. With \<open>{}\<close> under the key,
  \<open>getSavedProjects\<close> returns the object \<open>{}\<close>.
\<close>

theorem getSavedProjects_foreign_json_not_empty:
  "fst (getSavedProjects
     \<lparr>entries = [STORAGE_KEY \<mapsto> ascii ''{}''], denied = False, refuses_writes = False, setItem_calls = 0\<rparr>)
   = Inr (Obj [])"
  by (simp add: getSavedProjects_def try_catch_def getItem_def JSON_parse_def ascii_def
      skip_ws_def is_ws_def parse_scalar_def)

text \<open>
  C3, amended: \<open>getSavedProjects\<close> never throws and never changes the storage area. It
  returns the empty array when the storage area cannot be read, when the key is absent,
  when the stored text is empty and when the stored text is not JSON. Any other stored
  text is returned as \<open>JSON.parse\<close> reads it, whatever it is: nothing checks that it is a
  collection of ideas.
\<close>

theorem getSavedProjects_fail_open:
  "snd (getSavedProjects st) = st \<and>
   (\<exists>v. fst (getSavedProjects st) = Inr v) \<and>
   (denied st \<or> entries st STORAGE_KEY = None \<or> entries st STORAGE_KEY = Some [] \<or>
    (\<exists>d e. entries st STORAGE_KEY = Some d \<and> JSON_parse d = Inl e)
      \<longrightarrow> fst (getSavedProjects st) = Inr (Arr [])) \<and>
   (\<forall>d v. \<not> denied st \<and> entries st STORAGE_KEY = Some d \<and> d \<noteq> [] \<and> JSON_parse d = Inr v
      \<longrightarrow> fst (getSavedProjects st) = Inr v)"
proof (intro conjI impI allI)
  show "snd (getSavedProjects st) = st"
    by (rule getSavedProjects_state)
  show "\<exists>v. fst (getSavedProjects st) = Inr v"
    by (rule getSavedProjects_returns)
next
  assume "denied st \<or> entries st STORAGE_KEY = None \<or> entries st STORAGE_KEY = Some [] \<or>
    (\<exists>d e. entries st STORAGE_KEY = Some d \<and> JSON_parse d = Inl e)"
  then show "fst (getSavedProjects st) = Inr (Arr [])"
    by (auto simp: getSavedProjects_denied getSavedProjects_absent
        getSavedProjects_empty_string getSavedProjects_malformed)
next
  fix d v
  assume "\<not> denied st \<and> entries st STORAGE_KEY = Some d \<and> d \<noteq> [] \<and> JSON_parse d = Inr v"
  then show "fst (getSavedProjects st) = Inr v"
    by (simp add: getSavedProjects_parsed)
qed

theorem getSavedProjects_fail_open_witness:
  "fst (getSavedProjects
     \<lparr>entries = [STORAGE_KEY \<mapsto> ascii ''[''], denied = False, refuses_writes = False, setItem_calls = 7\<rparr>)
   = Inr (Arr []) \<and>
   snd (getSavedProjects
     \<lparr>entries = [STORAGE_KEY \<mapsto> ascii ''[''], denied = False, refuses_writes = False, setItem_calls = 7\<rparr>)
   = \<lparr>entries = [STORAGE_KEY \<mapsto> ascii ''[''], denied = False, refuses_writes = False, setItem_calls = 7\<rparr>"
proof -
  have "JSON_parse (ascii ''['') = Inl SyntaxError"
    by (simp add: JSON_parse_def ascii_def skip_ws_def is_ws_def parse_scalar_def)
  then show ?thesis
    using getSavedProjects_fail_open
      [of "\<lparr>entries = [STORAGE_KEY \<mapsto> ascii ''[''], denied = False, refuses_writes = False, setItem_calls = 7\<rparr>"]
    by simp
qed

section \<open>Exceptions\<close>

lemma saveProject_returns: "\<exists>r. fst (saveProject idea st) = Inr r"
  unfolding saveProject_def by (rule try_catch_returns) auto

lemma removeProject_returns: "\<exists>r. fst (removeProject i st) = Inr r"
  unfolding removeProject_def by (rule try_catch_returns) simp

text \<open>
  C2: \<open>getSavedProjects\<close>, \<open>saveProject\<close> and \<open>removeProject\<close> return on every storage area
  (\<open>getSavedProjects_returns\<close>, \<open>saveProject_returns\<close>, \<open>removeProject_returns\<close>), each
  inside its \<open>try\<close>. \<open>isProjectSaved\<close> has no \<open>try\<close>: with the JSON text \<open>null\<close> under the
  key, \<open>saved.some\<close> is a property access on \<open>null\<close> and the \<open>TypeError\<close> reaches the caller.
\<close>

theorem isProjectSaved_throws_on_stored_null:
  "fst (isProjectSaved i
     \<lparr>entries = [STORAGE_KEY \<mapsto> ascii ''null''], denied = False, refuses_writes = False, setItem_calls = 0\<rparr>)
   = Inl TypeError"
  by (simp add: isProjectSaved_def getSavedProjects_def try_catch_def getItem_def JSON_parse_def
      ascii_def skip_ws_def is_ws_def array_some_def parse_scalar_def)

section \<open>The saved collection\<close>

subsection \<open>Items\<close>

lemma is_item_canonical: "is_item v \<Longrightarrow> canonical v"
  by (simp add: is_item_def)

lemma items_canonical: "list_all is_item vs \<Longrightarrow> canonical (Arr vs)"
  by (induction vs) (simp_all add: is_item_canonical)

lemma get_id_item: "is_item v \<Longrightarrow> \<exists>i. get_id v = Inr (Some (Str i)) \<and> item_id v = Some i"
  by (auto simp: is_item_def item_id_def get_id_def split: jsval.splits option.splits)

lemma id_is_item: "is_item v \<Longrightarrow> id_is i v = Inr (item_id v = Some i)"
  using get_id_item [of v] by (auto simp: id_is_def)

lemma id_is_not_item: "is_item v \<Longrightarrow> id_is_not i v = Inr (item_id v \<noteq> Some i)"
  using get_id_item [of v] by (auto simp: id_is_not_def)

lemma same_id_items: "is_item a \<Longrightarrow> is_item v \<Longrightarrow> same_id a v = Inr (item_id v = item_id a)"
  using get_id_item [of v] get_id_item [of a] by (auto simp: same_id_def strict_equals_def)

lemma some_list_same_id:
  "is_item a \<Longrightarrow> list_all is_item vs \<Longrightarrow>
   some_list (same_id a) vs = Inr (item_id a \<in> item_id ` set vs)"
  by (induction vs) (auto simp: same_id_items)

lemma some_list_id_is:
  "list_all is_item vs \<Longrightarrow> some_list (id_is i) vs = Inr (Some i \<in> item_id ` set vs)"
  by (induction vs) (auto simp: id_is_item)

lemma filter_list_id_is_not:
  "list_all is_item vs \<Longrightarrow>
   filter_list (id_is_not i) vs = Inr (filter (\<lambda>v. item_id v \<noteq> Some i) vs)"
  by (induction vs) (simp_all add: id_is_not_item)

lemma items_filter: "list_all is_item vs \<Longrightarrow> list_all is_item (filter P vs)"
  by (induction vs) simp_all

text \<open>Every \<open>ProjectIdea\<close> is an Item.\<close>

lemma has_property_canonical:
  assumes "distinct (map fst ps)" "(k, x) \<in> set ps" "k = ascii name" "has_property ps name P"
    and "\<And>y. P y \<Longrightarrow> canonical y"
  shows "canonical x"
proof -
  have "map_of ps k = Some x" using assms(1,2) by simp
  then show ?thesis using assms(3,4,5) by (simp add: has_property_def)
qed

lemma is_string_canonical: "is_string v \<Longrightarrow> canonical v"
  by (cases v) (simp_all add: is_string_def)

lemma is_string_array_canonical: "is_string_array v \<Longrightarrow> canonical v"
proof (cases v)
  case (Arr vs)
  assume "is_string_array v"
  then have "list_all is_string vs" using Arr by (simp add: is_string_array_def)
  then have "list_all canonical vs"
    by (induction vs) (simp_all add: is_string_canonical)
  then show ?thesis using Arr by simp
qed (simp_all add: is_string_array_def)

lemma is_DifficultyLevel_canonical: "is_DifficultyLevel v \<Longrightarrow> canonical v"
  by (auto simp: is_DifficultyLevel_def)

lemma is_ProjectIdea_is_item:
  assumes "is_ProjectIdea v"
  shows "is_item v"
proof -
  from assms obtain ps where v: "v = Obj ps"
    by (cases v) (simp_all add: is_ProjectIdea_def)
  note p = assms [unfolded v is_ProjectIdea_def, simplified]
  have d: "distinct (map fst ps)" using p by (simp add: keys_in_order_def)
  have "canonical x" if "(k, x) \<in> set ps" for k x
  proof -
    have "k \<in> set ProjectIdea_keys" using p that by (metis fst_conv image_eqI set_map)
    then consider "k = ascii ''id''" | "k = ascii ''title''" | "k = ascii ''oneLiner''"
      | "k = ascii ''description''" | "k = ascii ''difficulty''" | "k = ascii ''domain''"
      | "k = ascii ''keyFeatures''" | "k = ascii ''techStack''"
      by (auto simp: ProjectIdea_keys_def)
    then show ?thesis
    proof cases
      case 1 then show ?thesis
        using has_property_canonical [OF d that, of "''id''" is_string] p is_string_canonical by blast
    next
      case 2 then show ?thesis
        using has_property_canonical [OF d that, of "''title''" is_string] p is_string_canonical by blast
    next
      case 3 then show ?thesis
        using has_property_canonical [OF d that, of "''oneLiner''" is_string] p is_string_canonical by blast
    next
      case 4 then show ?thesis
        using has_property_canonical [OF d that, of "''description''" is_string] p is_string_canonical by blast
    next
      case 5 then show ?thesis
        using has_property_canonical [OF d that, of "''difficulty''" is_DifficultyLevel] p
          is_DifficultyLevel_canonical by blast
    next
      case 6 then show ?thesis
        using has_property_canonical [OF d that, of "''domain''" is_string] p is_string_canonical by blast
    next
      case 7 then show ?thesis
        using has_property_canonical [OF d that, of "''keyFeatures''" is_string_array] p
          is_string_array_canonical by blast
    next
      case 8 then show ?thesis
        using has_property_canonical [OF d that, of "''techStack''" is_string_array] p
          is_string_array_canonical by blast
    qed
  qed
  then have "list_all (\<lambda>p. canonical (snd p)) ps"
    by (auto simp: list_all_iff)
  then have c: "canonical v" using p v by simp
  have "item_id v \<noteq> None"
    using p v by (auto simp: item_id_def has_property_def is_string_def split: option.splits jsval.splits)
  then show ?thesis using c by (simp add: is_item_def)
qed

lemma idea_p1_is_ProjectIdea: "is_ProjectIdea idea_p1"
  by (auto simp: is_ProjectIdea_def idea_p1_def has_property_def is_string_def is_string_array_def
      is_DifficultyLevel_def ProjectIdea_keys_def keys_in_order_def key_before_def array_index_def
      is_digit_def ascii_def)

lemma idea_p2_is_ProjectIdea: "is_ProjectIdea idea_p2"
  by (auto simp: is_ProjectIdea_def idea_p2_def has_property_def is_string_def is_string_array_def
      is_DifficultyLevel_def ProjectIdea_keys_def keys_in_order_def key_before_def array_index_def
      is_digit_def ascii_def)

lemma item_id_p1: "item_id idea_p1 = Some (ascii ''p1'')"
  by (simp add: item_id_def idea_p1_def ascii_def)

lemma item_id_p2: "item_id idea_p2 = Some (ascii ''p2'')"
  by (simp add: item_id_def idea_p2_def ascii_def)

subsection \<open>The four functions on a collection of Items\<close>

lemma JSON_stringify_array_nonempty: "JSON_stringify (Arr vs) \<noteq> []"
  by simp

declare JSON_stringify.simps [simp del]

lemma JSON_parse_array: "list_all canonical vs \<Longrightarrow> JSON_parse (JSON_stringify (Arr vs)) = Inr (Arr vs)"
  by (rule JSON_parse_stringify) simp

lemma items_all_canonical: "list_all is_item vs \<Longrightarrow> list_all canonical vs"
  by (induction vs) (simp_all add: is_item_canonical)

lemma getSavedProjects_eq: "getSavedProjects st = (fst (getSavedProjects st), st)"
  using getSavedProjects_state [of st] by (cases "getSavedProjects st") simp

lemma getSavedProjects_stored:
  assumes "\<not> denied st" "entries st STORAGE_KEY = Some (JSON_stringify (Arr vs))" "list_all canonical vs"
  shows "getSavedProjects st = (Inr (Arr vs), st)"
  by (rule getSavedProjects_parsed
      [OF assms(1,2) JSON_stringify_array_nonempty JSON_parse_array [OF assms(3)]])

lemma saveProject_items:
  assumes "fst (getSavedProjects st) = Inr (Arr vs)" "list_all is_item vs" "is_item a"
  shows "saveProject a st =
    (if item_id a \<in> item_id ` set vs then (Inr False, st)
     else (case setItem STORAGE_KEY (JSON_stringify (Arr (a # vs))) st of
             (Inl e, st') \<Rightarrow> (Inr False, st')
           | (Inr u, st') \<Rightarrow> (Inr True, st')))"
proof -
  have g: "getSavedProjects st = (Inr (Arr vs), st)"
    using getSavedProjects_eq [of st] assms(1) by simp
  show ?thesis
    unfolding saveProject_def g
    using some_list_same_id [OF assms(3,2)]
    by (simp add: try_catch_def array_some_def spread_after_def split: prod.splits sum.splits)
qed

lemma removeProject_items:
  assumes "fst (getSavedProjects st) = Inr (Arr vs)" "list_all is_item vs"
  shows "removeProject i st =
    (Inr (), snd (setItem STORAGE_KEY (JSON_stringify (Arr (filter (\<lambda>v. item_id v \<noteq> Some i) vs))) st))"
proof -
  have g: "getSavedProjects st = (Inr (Arr vs), st)"
    using getSavedProjects_eq [of st] assms(1) by simp
  show ?thesis
    unfolding removeProject_def g
    using filter_list_id_is_not [OF assms(2), of i]
    by (simp add: try_catch_def array_filter_def split: prod.splits sum.splits)
qed

lemma isProjectSaved_items:
  assumes "fst (getSavedProjects st) = Inr (Arr vs)" "list_all is_item vs"
  shows "isProjectSaved i st = (Inr (Some i \<in> item_id ` set vs), st)"
proof -
  have g: "getSavedProjects st = (Inr (Arr vs), st)"
    using getSavedProjects_eq [of st] assms(1) by simp
  show ?thesis
    unfolding isProjectSaved_def g
    using some_list_id_is [OF assms(2), of i]
    by (simp add: array_some_def)
qed

lemma setItem_accepted:
  "\<not> denied st \<Longrightarrow> \<not> refuses_writes st \<Longrightarrow>
   setItem k v st = (Inr (), st\<lparr>setItem_calls := Suc (setItem_calls st), entries := (entries st)(k \<mapsto> v)\<rparr>)"
  by (simp add: setItem_def Let_def)

lemma setItem_rejected:
  "denied st \<or> refuses_writes st \<Longrightarrow>
   \<exists>e. setItem k v st = (Inl e, st\<lparr>setItem_calls := Suc (setItem_calls st)\<rparr>)"
  by (auto simp: setItem_def Let_def)

lemma setItem_calls_after:
  "setItem_calls (snd (setItem k v st)) = Suc (setItem_calls st)"
  by (simp add: setItem_def Let_def)

lemma entries_after_rejected:
  "denied st \<or> refuses_writes st \<Longrightarrow> entries (snd (setItem k v st)) = entries st"
  by (auto simp: setItem_def Let_def)

lemma getSavedProjects_calls:
  "fst (getSavedProjects (st\<lparr>setItem_calls := n\<rparr>)) = fst (getSavedProjects st)"
  by (simp add: getSavedProjects_def getItem_def try_catch_def split: option.splits sum.splits)

lemma getSavedProjects_after_setItem:
  assumes "fst (getSavedProjects st) = Inr (Arr vs)" "list_all canonical ws"
  shows "fst (getSavedProjects (snd (setItem STORAGE_KEY (JSON_stringify (Arr ws)) st)))
    = Inr (Arr (if denied st \<or> refuses_writes st then vs else ws))"
proof (cases "denied st \<or> refuses_writes st")
  case True
  then have "snd (setItem STORAGE_KEY (JSON_stringify (Arr ws)) st)
      = st\<lparr>setItem_calls := Suc (setItem_calls st)\<rparr>"
    by (auto simp: setItem_def Let_def)
  then show ?thesis using True assms by (simp add: getSavedProjects_calls)
next
  case False
  then show ?thesis
    using assms(2) by (simp add: setItem_accepted getSavedProjects_stored)
qed

lemma unread_is_empty:
  "fst (getSavedProjects st) = Inr (Arr vs) \<Longrightarrow> denied st \<Longrightarrow> vs = []"
  by (simp add: getSavedProjects_denied)

lemma saveProject_accepted:
  assumes "fst (getSavedProjects st) = Inr (Arr vs)" "list_all is_item vs" "is_item a"
    "item_id a \<notin> item_id ` set vs" "\<not> denied st" "\<not> refuses_writes st"
  shows "saveProject a st =
    (Inr True, st\<lparr>setItem_calls := Suc (setItem_calls st),
                   entries := (entries st)(STORAGE_KEY \<mapsto> JSON_stringify (Arr (a # vs)))\<rparr>)"
  using assms by (simp add: saveProject_items setItem_accepted)

lemma saveProject_True:
  assumes "fst (getSavedProjects st) = Inr (Arr vs)" "list_all is_item vs" "is_item a"
    "fst (saveProject a st) = Inr True"
  shows "item_id a \<notin> item_id ` set vs \<and> \<not> denied st \<and> \<not> refuses_writes st"
  using assms by (auto simp: saveProject_items setItem_def Let_def split: if_splits)

subsection \<open>The persisted collection\<close>

lemma holds_readable:
  "holds st vs \<Longrightarrow> list_all canonical vs \<Longrightarrow> \<not> denied st \<Longrightarrow> getSavedProjects st = (Inr (Arr vs), st)"
  by (auto simp: holds_def getSavedProjects_absent getSavedProjects_stored split: option.splits)

lemma holds_read:
  "holds st vs \<Longrightarrow> list_all canonical vs \<Longrightarrow>
   fst (getSavedProjects st) = Inr (Arr (if denied st then [] else vs))"
  by (simp add: holds_readable getSavedProjects_denied)

lemma holds_after_setItem:
  "holds st vs \<Longrightarrow>
   holds (snd (setItem STORAGE_KEY (JSON_stringify (Arr ws)) st))
     (if denied st \<or> refuses_writes st then vs else ws)"
  by (simp add: holds_def setItem_def Let_def)

lemma holds_perform:
  assumes "holds st vs" "list_all is_item vs" "distinct (map item_id vs)" "well_typed c"
  shows "\<exists>ws. holds (perform c st) ws \<and> list_all is_item ws \<and> distinct (map item_id ws)"
proof (cases c)
  case (Add a)
  then have a: "is_item a" using assms(4) by simp
  let ?rs = "if denied st then [] else vs"
  have r: "fst (getSavedProjects st) = Inr (Arr ?rs)"
    using assms(1,2) by (intro holds_read items_all_canonical)
  have rs: "list_all is_item ?rs" using assms(2) by simp
  show ?thesis
  proof (cases "item_id a \<in> item_id ` set ?rs")
    case True
    then have "perform c st = st"
      using Add saveProject_items [OF r rs a] by simp
    then show ?thesis using assms by auto
  next
    case False
    then have "perform c st = snd (setItem STORAGE_KEY (JSON_stringify (Arr (a # ?rs))) st)"
      using Add saveProject_items [OF r rs a] by (simp split: prod.splits sum.splits)
    then have "holds (perform c st) (if denied st \<or> refuses_writes st then vs else a # ?rs)"
      using holds_after_setItem [OF assms(1)] by simp
    moreover have "list_all is_item (if denied st \<or> refuses_writes st then vs else a # ?rs)"
      using assms(2) a by simp
    moreover have "distinct (map item_id (if denied st \<or> refuses_writes st then vs else a # ?rs))"
      using assms(3) False by auto
    ultimately show ?thesis by blast
  qed
next
  case (Remove i)
  let ?rs = "if denied st then [] else vs"
  have r: "fst (getSavedProjects st) = Inr (Arr ?rs)"
    using assms(1,2) by (intro holds_read items_all_canonical)
  have rs: "list_all is_item ?rs" using assms(2) by simp
  let ?fs = "filter (\<lambda>v. item_id v \<noteq> Some i) ?rs"
  have "perform c st = snd (setItem STORAGE_KEY (JSON_stringify (Arr ?fs)) st)"
    using Remove removeProject_items [OF r rs, of i] by simp
  then have "holds (perform c st) (if denied st \<or> refuses_writes st then vs else ?fs)"
    using holds_after_setItem [OF assms(1)] by simp
  moreover have "list_all is_item (if denied st \<or> refuses_writes st then vs else ?fs)"
    using assms(2) by (simp add: items_filter)
  moreover have "distinct (map item_id (if denied st \<or> refuses_writes st then vs else ?fs))"
    using assms(3) by (auto simp: distinct_map_filter)
  ultimately show ?thesis by blast
next
  case (Adapter d f)
  then have "holds (perform c st) vs"
    using assms(1) by (simp add: holds_def)
  then show ?thesis using assms(2,3) by blast
qed

lemma holds_fold_perform:
  "holds st vs \<Longrightarrow> list_all is_item vs \<Longrightarrow> distinct (map item_id vs) \<Longrightarrow> list_all well_typed cs \<Longrightarrow>
   \<exists>ws. holds (fold perform cs st) ws \<and> list_all is_item ws \<and> distinct (map item_id ws)"
proof (induction cs arbitrary: st vs)
  case Nil
  then show ?case by auto
next
  case (Cons c cs)
  from Cons.prems have "well_typed c" "list_all well_typed cs" by simp_all
  with holds_perform [OF Cons.prems(1,2,3), of c] obtain ws where
    "holds (perform c st) ws" "list_all is_item ws" "distinct (map item_id ws)" by blast
  then show ?case using Cons.IH [of "perform c st" ws] \<open>list_all well_typed cs\<close> by simp
qed

lemma distinct_ids_count:
  "distinct (map item_id vs) \<Longrightarrow> length (filter (\<lambda>v. item_id v = k) vs) \<le> 1"
proof (induction vs)
  case Nil
  show ?case by simp
next
  case (Cons v vs)
  have "filter (\<lambda>v. item_id v = k) vs = []" if "item_id v = k"
  proof -
    have "item_id v \<notin> item_id ` set vs" using Cons.prems by simp
    then have "\<forall>w\<in>set vs. item_id w \<noteq> k" using that by blast
    then show ?thesis by (simp add: filter_empty_conv)
  qed
  then show ?case using Cons by auto
qed

lemma distinct_ids_count_present:
  assumes "distinct (map item_id vs)" "k \<in> item_id ` set vs"
  shows "length (filter (\<lambda>v. item_id v = k) vs) = 1"
proof -
  have "filter (\<lambda>v. item_id v = k) vs \<noteq> []"
    using assms(2) by (auto simp: filter_empty_conv)
  then show ?thesis
    using distinct_ids_count [OF assms(1), of k] by (cases "filter (\<lambda>v. item_id v = k) vs") auto
qed

lemma getSavedProjects_empty_storage: "fst (getSavedProjects empty_storage) = Inr (Arr [])"
  by (simp add: getSavedProjects_absent empty_storage_def)

lemma getSavedProjects_storage_with:
  "list_all canonical vs \<Longrightarrow> fst (getSavedProjects (storage_with vs)) = Inr (Arr vs)"
  by (simp add: getSavedProjects_stored storage_with_def)

lemma getSavedProjects_storage_with_refusing:
  "list_all canonical vs \<Longrightarrow>
   fst (getSavedProjects ((storage_with vs)\<lparr>refuses_writes := True\<rparr>)) = Inr (Arr vs)"
  by (simp add: getSavedProjects_stored storage_with_def)

lemma idea_p1_is_item: "is_item idea_p1"
  by (rule is_ProjectIdea_is_item) (rule idea_p1_is_ProjectIdea)

lemma idea_p2_is_item: "is_item idea_p2"
  by (rule is_ProjectIdea_is_item) (rule idea_p2_is_ProjectIdea)

subsection \<open>The statements\<close>

lemma p1_p2_items: "list_all is_item [idea_p2, idea_p1]" "list_all is_item [idea_p1]"
  by (simp_all add: idea_p1_is_item idea_p2_is_item)

lemma p1_p2_canonical: "list_all canonical [idea_p2, idea_p1]" "list_all canonical [idea_p1]"
  by (simp_all add: idea_p1_is_item idea_p2_is_item is_item_canonical)

text \<open>
  C1: start with the empty collection and run any history of \<open>saveProject\<close> on Items,
  \<open>removeProject\<close> and changes of the storage area's availability. The persisted
  collection then is a list of Items in which no id occurs twice, and it is what
  \<open>getSavedProjects\<close> returns once the storage area can be read.
\<close>

theorem saved_ids_unique:
  assumes "holds st []" and "list_all well_typed cs"
  shows "\<exists>vs. holds (fold perform cs st) vs \<and> list_all is_item vs \<and>
              fst (getSavedProjects ((fold perform cs st)\<lparr>denied := False\<rparr>)) = Inr (Arr vs) \<and>
              (\<forall>i. length (filter (\<lambda>v. item_id v = Some i) vs) \<le> 1)"
proof -
  obtain vs where vs: "holds (fold perform cs st) vs" "list_all is_item vs" "distinct (map item_id vs)"
    using holds_fold_perform [OF assms(1) _ _ assms(2)] by auto
  have "holds ((fold perform cs st)\<lparr>denied := False\<rparr>) vs"
    using vs(1) by (simp add: holds_def)
  then have "fst (getSavedProjects ((fold perform cs st)\<lparr>denied := False\<rparr>)) = Inr (Arr vs)"
    using holds_read [OF _ items_all_canonical [OF vs(2)]] by fastforce
  then show ?thesis
    using vs distinct_ids_count by blast
qed

theorem saved_ids_unique_witness:
  "\<exists>vs. holds (fold perform [Add idea_p1, Add idea_p2, Add idea_p1, Remove (ascii ''p2'')] empty_storage) vs \<and>
        list_all is_item vs \<and>
        fst (getSavedProjects ((fold perform [Add idea_p1, Add idea_p2, Add idea_p1, Remove (ascii ''p2'')]
               empty_storage)\<lparr>denied := False\<rparr>)) = Inr (Arr vs) \<and>
        (\<forall>i. length (filter (\<lambda>v. item_id v = Some i) vs) \<le> 1)"
  using saved_ids_unique [of empty_storage "[Add idea_p1, Add idea_p2, Add idea_p1, Remove (ascii ''p2'')]"]
  by (simp add: holds_def empty_storage_def idea_p1_is_item idea_p2_is_item)

text \<open>
  C4: the collection is a list of Items that holds neither the id of the Item \<open>a\<close> nor that
  of the Item \<open>b\<close>, the two ids differ and the storage area accepts writes. Then
  \<open>saveProject a\<close> and \<open>saveProject b\<close> both return \<open>true\<close>, and \<open>getSavedProjects\<close> returns
  \<open>b\<close>, then \<open>a\<close>, then what was there.
\<close>

theorem saveProject_twice_most_recent_first:
  assumes "fst (getSavedProjects st) = Inr (Arr vs)" and "list_all is_item vs"
    and "is_item a" and "is_item b"
    and "item_id a \<notin> item_id ` set vs" and "item_id b \<notin> item_id ` set vs"
    and "item_id a \<noteq> item_id b"
    and "\<not> denied st" and "\<not> refuses_writes st"
  shows "fst (saveProject a st) = Inr True \<and>
         fst (saveProject b (snd (saveProject a st))) = Inr True \<and>
         fst (getSavedProjects (snd (saveProject b (snd (saveProject a st))))) = Inr (Arr (b # a # vs))"
proof -
  let ?st1 = "st\<lparr>setItem_calls := Suc (setItem_calls st),
                   entries := (entries st)(STORAGE_KEY \<mapsto> JSON_stringify (Arr (a # vs)))\<rparr>"
  let ?st2 = "?st1\<lparr>setItem_calls := Suc (setItem_calls ?st1),
                   entries := (entries ?st1)(STORAGE_KEY \<mapsto> JSON_stringify (Arr (b # a # vs)))\<rparr>"
  have items1: "list_all is_item (a # vs)" using assms(2,3) by simp
  have items2: "list_all is_item (b # a # vs)" using assms(2,3,4) by simp
  have 1: "saveProject a st = (Inr True, ?st1)"
    using assms(1,2,3,5,8,9) by (rule saveProject_accepted)
  have r1: "fst (getSavedProjects ?st1) = Inr (Arr (a # vs))"
    using assms(8) items_all_canonical [OF items1] by (simp add: getSavedProjects_stored)
  have 2: "saveProject b ?st1 = (Inr True, ?st2)"
    using r1 items1 assms(4) by (rule saveProject_accepted) (use assms in auto)
  have r2: "fst (getSavedProjects ?st2) = Inr (Arr (b # a # vs))"
    using assms(8) items_all_canonical [OF items2] by (simp add: getSavedProjects_stored)
  show ?thesis
    using 1 2 r2 by simp
qed

theorem saveProject_twice_most_recent_first_witness:
  "fst (saveProject idea_p1 empty_storage) = Inr True \<and>
   fst (saveProject idea_p2 (snd (saveProject idea_p1 empty_storage))) = Inr True \<and>
   fst (getSavedProjects (snd (saveProject idea_p2 (snd (saveProject idea_p1 empty_storage)))))
     = Inr (Arr [idea_p2, idea_p1])"
  using saveProject_twice_most_recent_first [of empty_storage "[]" idea_p1 idea_p2]
    getSavedProjects_empty_storage idea_p1_is_item idea_p2_is_item
  by (simp add: empty_storage_def item_id_p1 item_id_p2 ascii_def)

text \<open>
  C5: when the collection is a list of Items and the id of the Item \<open>a\<close> is in it,
  \<open>saveProject a\<close> returns \<open>false\<close> and leaves the storage area as it was, \<open>setItem_calls\<close>
  included: it does not write. The collection is the same afterwards, and where no id
  occurs twice in it (C1) it holds exactly one Item of that id.
\<close>

theorem saveProject_duplicate_is_noop:
  assumes "fst (getSavedProjects st) = Inr (Arr vs)" and "list_all is_item vs"
    and "is_item a" and "item_id a \<in> item_id ` set vs"
  shows "saveProject a st = (Inr False, st) \<and>
         fst (getSavedProjects (snd (saveProject a st))) = Inr (Arr vs) \<and>
         (distinct (map item_id vs) \<longrightarrow> length (filter (\<lambda>v. item_id v = item_id a) vs) = 1)"
  using assms by (simp add: saveProject_items distinct_ids_count_present)

theorem saveProject_duplicate_is_noop_witness:
  "saveProject idea_p1 (storage_with [idea_p2, idea_p1]) = (Inr False, storage_with [idea_p2, idea_p1]) \<and>
   fst (getSavedProjects (snd (saveProject idea_p1 (storage_with [idea_p2, idea_p1]))))
     = Inr (Arr [idea_p2, idea_p1]) \<and>
   length (filter (\<lambda>v. item_id v = item_id idea_p1) [idea_p2, idea_p1]) = 1"
  using saveProject_duplicate_is_noop [of "storage_with [idea_p2, idea_p1]" "[idea_p2, idea_p1]" idea_p1]
    getSavedProjects_storage_with [OF p1_p2_canonical(1)] p1_p2_items(1) idea_p1_is_item
  by (simp add: item_id_p1 item_id_p2 ascii_def)

text \<open>The text under the key when \<open>p1\<close> is the one saved idea.\<close>

lemma stored_text_p1:
  "JSON_stringify (Arr [idea_p1]) =
   ascii ''[{\"title\":\"X\",\"oneLiner\":\"\",\"description\":\"\",\"difficulty\":\"Beginner\",\"domain\":\"\",\"keyFeatures\":[],\"techStack\":[],\"id\":\"p1\"}]''"
  by (simp add: JSON_stringify.simps idea_p1_def ascii_def QuoteJSONString_def is_lead_def is_trail_def)

lemma rejected_remove_keeps_p1:
  "fst (getSavedProjects (snd (removeProject (ascii ''p1'') ((storage_with [idea_p1])\<lparr>refuses_writes := True\<rparr>))))
     = Inr (Arr [idea_p1])"
proof -
  have r: "fst (getSavedProjects ((storage_with [idea_p1])\<lparr>refuses_writes := True\<rparr>)) = Inr (Arr [idea_p1])"
    by (rule getSavedProjects_storage_with_refusing) (rule p1_p2_canonical)
  show ?thesis
    using removeProject_items [OF r p1_p2_items(2), of "ascii ''p1''"]
      getSavedProjects_after_setItem [OF r, of "filter (\<lambda>v. item_id v \<noteq> Some (ascii ''p1'')) [idea_p1]"]
    by (simp add: storage_with_def item_id_p1)
qed

text \<open>
  C6, the claim as it is written, fails when the storage area rejects the write: with
  \<open>p1\<close> saved and writes refused, \<open>removeProject\<close> of \<open>p1\<close> leaves \<open>p1\<close> in the collection.
\<close>

theorem removeProject_rejected_write_keeps_item:
  "fst (getSavedProjects ((storage_with [idea_p1])\<lparr>refuses_writes := True\<rparr>)) = Inr (Arr [idea_p1]) \<and>
   item_id idea_p1 = Some (ascii ''p1'') \<and>
   fst (getSavedProjects (snd (removeProject (ascii ''p1'') ((storage_with [idea_p1])\<lparr>refuses_writes := True\<rparr>))))
     = Inr (Arr [idea_p1])"
  using getSavedProjects_storage_with_refusing [OF p1_p2_canonical(2)] rejected_remove_keeps_p1 item_id_p1
  by simp

text \<open>
  C6, amended: when the stored value is a collection of Items, \<open>removeProject i\<close> does not
  throw and calls \<open>setItem\<close> once, whether or not an Item has the id \<open>i\<close>. When the storage
  area accepts the write, the collection becomes the former one without the Items of id
  \<open>i\<close>, the others in their order; when it rejects the write, the entries stay as they
  were. When no Item has the id \<open>i\<close>, \<open>getSavedProjects\<close> returns the same list after as
  before.
\<close>

theorem removeProject_filters:
  assumes "fst (getSavedProjects st) = Inr (Arr vs)" and "list_all is_item vs"
  shows "fst (removeProject i st) = Inr () \<and>
         setItem_calls (snd (removeProject i st)) = Suc (setItem_calls st) \<and>
         (\<not> denied st \<and> \<not> refuses_writes st \<longrightarrow>
            fst (getSavedProjects (snd (removeProject i st)))
              = Inr (Arr (filter (\<lambda>v. item_id v \<noteq> Some i) vs))) \<and>
         (denied st \<or> refuses_writes st \<longrightarrow> entries (snd (removeProject i st)) = entries st) \<and>
         (Some i \<notin> item_id ` set vs \<longrightarrow> fst (getSavedProjects (snd (removeProject i st))) = Inr (Arr vs))"
proof -
  let ?fs = "filter (\<lambda>v. item_id v \<noteq> Some i) vs"
  have same: "?fs = vs" if "Some i \<notin> item_id ` set vs"
  proof -
    have "\<forall>v\<in>set vs. item_id v \<noteq> Some i" using that by (metis image_eqI)
    then show ?thesis by (simp add: filter_id_conv)
  qed
  have c: "list_all canonical ?fs"
    using assms(2) by (intro items_all_canonical items_filter)
  have c': "list_all canonical vs"
    using assms(2) by (rule items_all_canonical)
  show ?thesis
    using same
    by (auto simp: removeProject_items [OF assms] getSavedProjects_after_setItem [OF assms(1) c]
        getSavedProjects_after_setItem [OF assms(1) c'] setItem_calls_after entries_after_rejected)
qed

theorem removeProject_filters_witness:
  "fst (removeProject (ascii ''p1'') (storage_with [idea_p2, idea_p1])) = Inr () \<and>
   setItem_calls (snd (removeProject (ascii ''p1'') (storage_with [idea_p2, idea_p1]))) = 1 \<and>
   fst (getSavedProjects (snd (removeProject (ascii ''p1'') (storage_with [idea_p2, idea_p1]))))
     = Inr (Arr [idea_p2]) \<and>
   fst (getSavedProjects (snd (removeProject (ascii ''p3'') (storage_with [idea_p2, idea_p1]))))
     = Inr (Arr [idea_p2, idea_p1])"
  using removeProject_filters [OF getSavedProjects_storage_with [OF p1_p2_canonical(1)] p1_p2_items(1), of "ascii ''p1''"]
    removeProject_filters [OF getSavedProjects_storage_with [OF p1_p2_canonical(1)] p1_p2_items(1), of "ascii ''p3''"]
  by (simp add: storage_with_def item_id_p1 item_id_p2 ascii_def)

text \<open>
  C7, the claim as it is written, fails at the same place: after that \<open>removeProject\<close> of
  \<open>p1\<close>, \<open>isProjectSaved\<close> of \<open>p1\<close> is still true.
\<close>

theorem isProjectSaved_true_after_rejected_remove:
  "fst (isProjectSaved (ascii ''p1'')
     (snd (removeProject (ascii ''p1'') ((storage_with [idea_p1])\<lparr>refuses_writes := True\<rparr>)))) = Inr True"
  using isProjectSaved_items [OF rejected_remove_keeps_p1 p1_p2_items(2), of "ascii ''p1''"]
  by (simp add: item_id_p1)

text \<open>
  C7, amended: when the stored value is a collection of Items, \<open>isProjectSaved i\<close> returns
  whether an Item of id \<open>i\<close> is in the collection and leaves the storage area as it was.
  It is true after a \<open>saveProject\<close> of an Item that returned \<open>true\<close>. After
  \<open>removeProject i\<close> it is false, except when the storage area refused the write of
  \<open>removeProject\<close> and an Item of id \<open>i\<close> was there: then it is still true.
\<close>

theorem isProjectSaved_iff_present:
  assumes "fst (getSavedProjects st) = Inr (Arr vs)" and "list_all is_item vs" and "is_item a"
  shows "isProjectSaved i st = (Inr (Some i \<in> item_id ` set vs), st) \<and>
         (fst (saveProject a st) = Inr True \<longrightarrow>
            (\<exists>k. item_id a = Some k \<and> fst (isProjectSaved k (snd (saveProject a st))) = Inr True)) \<and>
         fst (isProjectSaved i (snd (removeProject i st)))
           = Inr (refuses_writes st \<and> Some i \<in> item_id ` set vs)"
proof (intro conjI impI)
  show "isProjectSaved i st = (Inr (Some i \<in> item_id ` set vs), st)"
    using assms(1,2) by (rule isProjectSaved_items)
next
  assume t: "fst (saveProject a st) = Inr True"
  let ?st' = "st\<lparr>setItem_calls := Suc (setItem_calls st),
                   entries := (entries st)(STORAGE_KEY \<mapsto> JSON_stringify (Arr (a # vs)))\<rparr>"
  note ok = saveProject_True [OF assms t]
  have items: "list_all is_item (a # vs)" using assms(2,3) by simp
  have s: "saveProject a st = (Inr True, ?st')"
    using assms ok by (intro saveProject_accepted) auto
  have r: "fst (getSavedProjects ?st') = Inr (Arr (a # vs))"
    using ok items_all_canonical [OF items] by (simp add: getSavedProjects_stored)
  obtain k where k: "item_id a = Some k"
    using assms(3) by (auto simp: is_item_def)
  have "fst (isProjectSaved k (snd (saveProject a st))) = Inr True"
    using isProjectSaved_items [OF r items, of k] s k by simp
  then show "\<exists>k. item_id a = Some k \<and> fst (isProjectSaved k (snd (saveProject a st))) = Inr True"
    using k by blast
next
  let ?st' = "snd (removeProject i st)"
  let ?fs = "filter (\<lambda>v. item_id v \<noteq> Some i) vs"
  let ?ws = "if denied st \<or> refuses_writes st then vs else ?fs"
  have c: "list_all canonical ?fs"
    using assms(2) by (intro items_all_canonical items_filter)
  have r: "fst (getSavedProjects ?st') = Inr (Arr ?ws)"
    using getSavedProjects_after_setItem [OF assms(1) c] by (simp add: removeProject_items [OF assms(1,2)])
  have w: "list_all is_item ?ws"
    using assms(2) by (simp add: items_filter)
  have "vs = []" if "denied st"
    using assms(1) that by (rule unread_is_empty)
  then show "fst (isProjectSaved i ?st') = Inr (refuses_writes st \<and> Some i \<in> item_id ` set vs)"
    using isProjectSaved_items [OF r w, of i] by auto
qed

theorem isProjectSaved_iff_present_witness:
  "isProjectSaved (ascii ''p1'') (storage_with [idea_p1])
     = (Inr True, storage_with [idea_p1]) \<and>
   isProjectSaved (ascii ''p2'') (storage_with [idea_p1])
     = (Inr False, storage_with [idea_p1]) \<and>
   fst (isProjectSaved (ascii ''p2'') (snd (saveProject idea_p2 (storage_with [idea_p1])))) = Inr True \<and>
   fst (isProjectSaved (ascii ''p1'') (snd (removeProject (ascii ''p1'') (storage_with [idea_p1])))) = Inr False"
proof -
  have r: "fst (getSavedProjects (storage_with [idea_p1])) = Inr (Arr [idea_p1])"
    by (rule getSavedProjects_storage_with) (rule p1_p2_canonical)
  have "fst (saveProject idea_p2 (storage_with [idea_p1])) = Inr True"
    using saveProject_accepted [OF r p1_p2_items(2) idea_p2_is_item]
    by (simp add: storage_with_def item_id_p1 item_id_p2 ascii_def)
  then show ?thesis
    using isProjectSaved_iff_present [OF r p1_p2_items(2) idea_p2_is_item, of "ascii ''p1''"]
      isProjectSaved_iff_present [OF r p1_p2_items(2) idea_p2_is_item, of "ascii ''p2''"]
    by (simp add: storage_with_def item_id_p1 item_id_p2 ascii_def)
qed

text \<open>
  C8: for every list of values in the form \<open>JSON.parse\<close> builds them, numbers apart, and so
  for every list of Items (\<open>items_all_canonical\<close>), \<open>JSON.parse\<close> reads back from the text
  \<open>JSON.stringify\<close> writes for it the same values in the same order, and so does
  \<open>getSavedProjects\<close> once \<open>setItem\<close> has stored that text.
\<close>

theorem stored_collection_reads_back:
  assumes "list_all canonical vs"
    and "fst (setItem STORAGE_KEY (JSON_stringify (Arr vs)) st) = Inr ()"
  shows "JSON_parse (JSON_stringify (Arr vs)) = Inr (Arr vs) \<and>
         fst (getSavedProjects (snd (setItem STORAGE_KEY (JSON_stringify (Arr vs)) st))) = Inr (Arr vs)"
proof -
  have "\<not> denied st \<and> \<not> refuses_writes st"
    using assms(2) by (auto simp: setItem_def Let_def split: if_splits)
  then have "fst (getSavedProjects (snd (setItem STORAGE_KEY (JSON_stringify (Arr vs)) st))) = Inr (Arr vs)"
    using assms(1) by (simp add: setItem_accepted getSavedProjects_stored)
  then show ?thesis
    using JSON_parse_array [OF assms(1)] by simp
qed

theorem stored_collection_reads_back_witness:
  "JSON_parse (JSON_stringify (Arr [idea_p2, idea_p1])) = Inr (Arr [idea_p2, idea_p1]) \<and>
   fst (getSavedProjects
     (snd (setItem STORAGE_KEY (JSON_stringify (Arr [idea_p2, idea_p1])) empty_storage)))
     = Inr (Arr [idea_p2, idea_p1])"
  using stored_collection_reads_back [OF p1_p2_canonical(1), of empty_storage]
  by (simp add: setItem_def empty_storage_def)

text \<open>
  C9: when the collection is a list of Items and the id of the Item \<open>a\<close> is not in it,
  \<open>saveProject a\<close> leaves the storage area exactly as its one call of \<open>setItem\<close> leaves it,
  and returns \<open>true\<close> if and only if that call returned. After \<open>true\<close> the collection is
  \<open>a\<close> followed by the former collection; after \<open>false\<close> the entries and the collection
  are the former ones: nothing is rolled back and nothing else is written.
\<close>

theorem saveProject_reports_the_write:
  assumes "fst (getSavedProjects st) = Inr (Arr vs)" and "list_all is_item vs"
    and "is_item a" and "item_id a \<notin> item_id ` set vs"
  shows "snd (saveProject a st) = snd (setItem STORAGE_KEY (JSON_stringify (Arr (a # vs))) st) \<and>
         fst (saveProject a st)
           = Inr (fst (setItem STORAGE_KEY (JSON_stringify (Arr (a # vs))) st) = Inr ()) \<and>
         (fst (saveProject a st) = Inr True \<longrightarrow>
            fst (getSavedProjects (snd (saveProject a st))) = Inr (Arr (a # vs))) \<and>
         (fst (saveProject a st) = Inr False \<longrightarrow>
            entries (snd (saveProject a st)) = entries st \<and>
            fst (getSavedProjects (snd (saveProject a st))) = Inr (Arr vs))"
proof (cases "denied st \<or> refuses_writes st")
  case True
  then obtain e where "setItem STORAGE_KEY (JSON_stringify (Arr (a # vs))) st
      = (Inl e, st\<lparr>setItem_calls := Suc (setItem_calls st)\<rparr>)"
    using setItem_rejected by blast
  then show ?thesis
    using assms by (simp add: saveProject_items getSavedProjects_calls)
next
  case False
  have "list_all canonical (a # vs)"
    using assms(2,3) by (intro items_all_canonical) simp
  then show ?thesis
    using False assms by (simp add: saveProject_items setItem_accepted getSavedProjects_stored)
qed

theorem saveProject_reports_the_write_witness:
  "fst (saveProject idea_p2 (storage_with [idea_p1])) = Inr True \<and>
   fst (getSavedProjects (snd (saveProject idea_p2 (storage_with [idea_p1])))) = Inr (Arr [idea_p2, idea_p1]) \<and>
   fst (saveProject idea_p2 ((storage_with [idea_p1])\<lparr>refuses_writes := True\<rparr>)) = Inr False \<and>
   fst (getSavedProjects (snd (saveProject idea_p2 ((storage_with [idea_p1])\<lparr>refuses_writes := True\<rparr>))))
     = Inr (Arr [idea_p1])"
proof -
  have new: "item_id idea_p2 \<notin> item_id ` set [idea_p1]"
    by (simp add: item_id_p1 item_id_p2 ascii_def)
  have accepted: "fst (setItem STORAGE_KEY v (storage_with [idea_p1])) = Inr ()" for v
    by (simp add: setItem_def storage_with_def)
  have rejected: "fst (setItem STORAGE_KEY v ((storage_with [idea_p1])\<lparr>refuses_writes := True\<rparr>)) \<noteq> Inr ()" for v
    by (simp add: setItem_def storage_with_def)
  note A = saveProject_reports_the_write
    [OF getSavedProjects_storage_with [OF p1_p2_canonical(2)] p1_p2_items(2) idea_p2_is_item new]
  note B = saveProject_reports_the_write
    [OF getSavedProjects_storage_with_refusing [OF p1_p2_canonical(2)] p1_p2_items(2) idea_p2_is_item new]
  have a: "fst (saveProject idea_p2 (storage_with [idea_p1])) = Inr True"
    using A accepted by simp
  have b: "fst (saveProject idea_p2 ((storage_with [idea_p1])\<lparr>refuses_writes := True\<rparr>)) = Inr False"
    using B rejected by simp
  show ?thesis
    using a b A B by blast
qed

text \<open>
  C10: the collection is a list of Items, \<open>a\<close> is an Item whose id is not in it, and
  \<open>saveProject a\<close> returned \<open>true\<close>. Then \<open>getSavedProjects\<close> returns \<open>a\<close> followed by the
  objects that were there, each one with every property it had and in the former order.
\<close>

theorem saveProject_keeps_the_saved:
  assumes "fst (getSavedProjects st) = Inr (Arr vs)" and "list_all is_item vs"
    and "is_item a" and "item_id a \<notin> item_id ` set vs"
    and "fst (saveProject a st) = Inr True"
  shows "fst (getSavedProjects (snd (saveProject a st))) = Inr (Arr (a # vs))"
proof -
  have "\<not> denied st \<and> \<not> refuses_writes st"
    using saveProject_True [OF assms(1,2,3,5)] by simp
  moreover have "list_all canonical (a # vs)"
    using assms(2,3) by (intro items_all_canonical) simp
  ultimately show ?thesis
    using assms(1,2,3,4) by (simp add: saveProject_items setItem_accepted getSavedProjects_stored)
qed

theorem saveProject_keeps_the_saved_witness:
  "fst (getSavedProjects (snd (saveProject idea_p2 (storage_with [idea_p1]))))
     = Inr (Arr [idea_p2, idea_p1])"
proof -
  have r: "fst (getSavedProjects (storage_with [idea_p1])) = Inr (Arr [idea_p1])"
    by (rule getSavedProjects_storage_with) (rule p1_p2_canonical)
  have new: "item_id idea_p2 \<notin> item_id ` set [idea_p1]"
    by (simp add: item_id_p1 item_id_p2 ascii_def)
  have "fst (saveProject idea_p2 (storage_with [idea_p1])) = Inr True"
    using saveProject_accepted [OF r p1_p2_items(2) idea_p2_is_item new]
    by (simp add: storage_with_def)
  then show ?thesis
    using saveProject_keeps_the_saved [OF r p1_p2_items(2) idea_p2_is_item new]
    by simp
qed

end
